theory Spec2Isabelle
  imports Main
begin

section \<open>Error catalog (berrors/berrors.go)\<close>

text \<open>
  The error codes are the constants of one Go \<^verbatim>\<open>const\<close> block that starts at
  \<^verbatim>\<open>iota + 1\<close>: the constant on the n-th line of the block has the value n, and a
  blank identifier \<^verbatim>\<open>_\<close> takes up one value. The block starts on line 4 of the file,
  so a constant on file line l has the value l - 3. Go's \<^verbatim>\<open>int\<close> is modelled by
  \<^typ>\<open>int\<close>; no arithmetic is done on the codes.
\<close>

definition NextWithoutFor :: int where "NextWithoutFor = 1"
definition Syntax :: int where "Syntax = 2"
definition ReturnWoGosub :: int where "ReturnWoGosub = 3"
definition OutOfData :: int where "OutOfData = 4"
definition IllegalFuncCallErr :: int where "IllegalFuncCallErr = 5"
definition Overflow :: int where "Overflow = 6"
definition OutOfMemory :: int where "OutOfMemory = 7"
definition UnDefinedLineNumber :: int where "UnDefinedLineNumber = 8"
definition SubscriptRange :: int where "SubscriptRange = 9"
definition DuplicateDefinition :: int where "DuplicateDefinition = 10"
definition DivByZero :: int where "DivByZero = 11"
definition IllegalDirect :: int where "IllegalDirect = 12"
definition TypeMismatch :: int where "TypeMismatch = 13"
definition StringSpace :: int where "StringSpace = 14"
definition String2Long :: int where "String2Long = 15"
definition StringForm2Complex :: int where "StringForm2Complex = 16"
definition CantContinue :: int where "CantContinue = 17"
definition UndefinedFunction :: int where "UndefinedFunction = 18"
definition NoResume :: int where "NoResume = 19"
definition ResumeWoError :: int where "ResumeWoError = 20"
definition Unprintable :: int where "Unprintable = 21"
definition MissingOp :: int where "MissingOp = 22"
definition LineOverflow :: int where "LineOverflow = 23"
definition DeviceTimeout :: int where "DeviceTimeout = 24"
definition DeviceFault :: int where "DeviceFault = 25"
definition ForWoNext :: int where "ForWoNext = 26"
definition OutOfPaper :: int where "OutOfPaper = 27"
definition UnprintableErr :: int where "UnprintableErr = 28"
definition WhileWoWend :: int where "WhileWoWend = 29"
definition WendWoWhile :: int where "WendWoWhile = 30"
text \<open>file lines 34 to 52: nineteen blank identifiers, the values 31 to 49\<close>
definition FieldOverflow :: int where "FieldOverflow = 50"
definition InternalErr :: int where "InternalErr = 51"
definition BadFileNum :: int where "BadFileNum = 52"
definition FileNotFound :: int where "FileNotFound = 53"
text \<open>file lines 57 to 73: seventeen blank identifiers, the values 54 to 70\<close>
definition PermissionDenied :: int where "PermissionDenied = 71"
text \<open>file lines 75 to 79: five blank identifiers, the values 72 to 76\<close>
definition PathNotFound :: int where "PathNotFound = 77"

lemmas berrors_defs =
  NextWithoutFor_def Syntax_def ReturnWoGosub_def OutOfData_def IllegalFuncCallErr_def
  Overflow_def OutOfMemory_def UnDefinedLineNumber_def SubscriptRange_def
  DuplicateDefinition_def DivByZero_def IllegalDirect_def TypeMismatch_def StringSpace_def
  String2Long_def StringForm2Complex_def CantContinue_def UndefinedFunction_def NoResume_def
  ResumeWoError_def Unprintable_def MissingOp_def LineOverflow_def DeviceTimeout_def
  DeviceFault_def ForWoNext_def OutOfPaper_def UnprintableErr_def WhileWoWend_def
  WendWoWhile_def FieldOverflow_def InternalErr_def BadFileNum_def FileNotFound_def
  PermissionDenied_def PathNotFound_def

text \<open>
  \<^verbatim>\<open>TextForError\<close>: a \<^verbatim>\<open>switch\<close> over twelve of the constants, in the order of the
  source, and the text after the switch for every other value.
\<close>

definition TextForError :: "int \<Rightarrow> string" where
  "TextForError err =
     (if err = CantContinue then ''Can't continue''
      else if err = DivByZero then ''Division by zero''
      else if err = FileNotFound then ''File not found''
      else if err = IllegalDirect then ''Illegal direct''
      else if err = NextWithoutFor then ''NEXT without FOR''
      else if err = OutOfData then ''Out of DATA''
      else if err = Overflow then ''Overflow''
      else if err = ReturnWoGosub then ''RETURN without GOSUB''
      else if err = Syntax then ''Syntax error''
      else if err = TypeMismatch then ''Type mismatch''
      else if err = UnDefinedLineNumber then ''Undefined line number''
      else if err = PathNotFound then ''Path not found''
      else ''Unprintable error'')"

text \<open>The codes that have a case in the switch.\<close>

definition catalog :: "int list" where
  "catalog = [CantContinue, DivByZero, FileNotFound, IllegalDirect, NextWithoutFor, OutOfData,
     Overflow, ReturnWoGosub, Syntax, TypeMismatch, UnDefinedLineNumber, PathNotFound]"

section \<open>Go strings (unicode/utf8, fmt and strings of the standard library)\<close>

text \<open>
  A Go string is a sequence of bytes, and \<^verbatim>\<open>len\<close> and slicing count bytes: it is
  modelled by \<^typ>\<open>string\<close>, whose characters are the 256 byte values. The \<^verbatim>\<open>fmt\<close>
  verbs count and cut in runes, so the UTF-8 decoder of \<^verbatim>\<open>unicode/utf8\<close> is part of
  the model. \<open>leadSize\<close>, \<open>acceptLo\<close> and \<open>acceptHi\<close> are its tables \<^verbatim>\<open>first\<close> and
  \<^verbatim>\<open>acceptRanges\<close>: the length that a first byte announces (1 for an ASCII byte and
  for a byte that cannot start a sequence) and the range allowed for the second byte.
  \<open>runeWidth\<close> is the width returned by \<^verbatim>\<open>DecodeRuneInString\<close>, with its checks in
  the order of the library: a sequence cut short or with a wrong continuation byte
  decodes as one byte.
\<close>

definition byte :: "char \<Rightarrow> nat" where
  "byte c = of_char c"

definition leadSize :: "nat \<Rightarrow> nat" where
  "leadSize x =
     (if 0xC2 \<le> x \<and> x \<le> 0xDF then 2
      else if 0xE0 \<le> x \<and> x \<le> 0xEF then 3
      else if 0xF0 \<le> x \<and> x \<le> 0xF4 then 4
      else 1)"

definition acceptLo :: "nat \<Rightarrow> nat" where
  "acceptLo x = (if x = 0xE0 then 0xA0 else if x = 0xF0 then 0x90 else 0x80)"

definition acceptHi :: "nat \<Rightarrow> nat" where
  "acceptHi x = (if x = 0xED then 0x9F else if x = 0xF4 then 0x8F else 0xBF)"

definition locb :: nat where "locb = 0x80"
definition hicb :: nat where "hicb = 0xBF"

definition runeWidth :: "string \<Rightarrow> nat" where
  "runeWidth s =
     (if length s < 1 then 0
      else let s0 = byte (s ! 0); sz = leadSize s0 in
        if sz = 1 then 1
        else if length s < sz then 1
        else if byte (s ! 1) < acceptLo s0 \<or> acceptHi s0 < byte (s ! 1) then 1
        else if sz \<le> 2 then 2
        else if byte (s ! 2) < locb \<or> hicb < byte (s ! 2) then 1
        else if sz \<le> 3 then 3
        else if byte (s ! 3) < locb \<or> hicb < byte (s ! 3) then 1
        else 4)"

text \<open>Names for the two kinds of check of \<open>runeWidth\<close>, used in the proofs.\<close>

definition okFirst :: "string \<Rightarrow> bool" where
  "okFirst s = (\<not> (byte (s ! 1) < acceptLo (byte (s ! 0)) \<or> acceptHi (byte (s ! 0)) < byte (s ! 1)))"

definition cont :: "string \<Rightarrow> nat \<Rightarrow> bool" where
  "cont s i = (\<not> (byte (s ! i) < locb \<or> hicb < byte (s ! i)))"

text \<open>
  \<^verbatim>\<open>utf8.RuneCountInString\<close> walks the string rune by rune; the loop
  \<^verbatim>\<open>for i := range s\<close> of \<^verbatim>\<open>fmt\<close>'s \<^verbatim>\<open>truncateString\<close> keeps the first
  \<open>n\<close> runes (\<open>n\<close> is the precision, which is present in both verbs used here).
\<close>

fun RuneCountInString :: "string \<Rightarrow> nat" where
  "RuneCountInString [] = 0"
| "RuneCountInString (c # cs) = Suc (RuneCountInString (drop (runeWidth (c # cs) - 1) cs))"

fun truncateString :: "nat \<Rightarrow> string \<Rightarrow> string" where
  "truncateString n [] = []"
| "truncateString 0 (c # cs) = []"
| "truncateString (Suc n) (c # cs) =
     take (runeWidth (c # cs)) (c # cs) @ truncateString n (drop (runeWidth (c # cs) - 1) cs)"

text \<open>
  \<^verbatim>\<open>padString\<close> pads to the width in runes, on the right when the \<^verbatim>\<open>-\<close> flag is
  set; a width that is not positive after the subtraction writes no padding.
  \<open>fmtS\<close> is the verb \<^verbatim>\<open>%s\<close> with a width and a precision.
\<close>

definition padString :: "bool \<Rightarrow> nat \<Rightarrow> string \<Rightarrow> string" where
  "padString minusFlag wid s =
     (if wid = 0 then s
      else let width = int wid - int (RuneCountInString s) in
        if \<not> minusFlag then replicate (nat width) (CHR '' '') @ s
        else s @ replicate (nat width) (CHR '' ''))"

definition fmtS :: "bool \<Rightarrow> nat \<Rightarrow> nat \<Rightarrow> string \<Rightarrow> string" where
  "fmtS minusFlag wid prec s = padString minusFlag wid (truncateString prec s)"

text \<open>
  \<^verbatim>\<open>strings.Split\<close> with a separator of one byte: \<open>acc\<close> is the segment read so
  far. An input without the separator gives one segment, the empty input gives one empty
  segment. \<^verbatim>\<open>strings.HasPrefix\<close> compares the first bytes.
\<close>

fun genSplit :: "char \<Rightarrow> string \<Rightarrow> string \<Rightarrow> string list" where
  "genSplit sep acc [] = [acc]"
| "genSplit sep acc (c # cs) =
     (if c = sep then acc # genSplit sep [] cs else genSplit sep (acc @ [c]) cs)"

definition Split :: "string \<Rightarrow> char \<Rightarrow> string list" where
  "Split s sep = genSplit sep [] s"

definition HasPrefix :: "string \<Rightarrow> string \<Rightarrow> bool" where
  "HasPrefix s prefix = (length prefix \<le> length s \<and> take (length prefix) s = prefix)"

text \<open>A string of ASCII bytes, and a string that is empty or starts with one.\<close>

definition isASCII :: "string \<Rightarrow> bool" where
  "isASCII s = (\<forall>c \<in> set s. byte c < 0x80)"

definition asciiLed :: "string \<Rightarrow> bool" where
  "asciiLed t = (case t of [] \<Rightarrow> True | c # _ \<Rightarrow> byte c < 0x80)"

section \<open>File names and directory listings (fileserv/fileserv.go)\<close>

text \<open>
  \<^verbatim>\<open>FormatFileName\<close> and its helpers. \<open>Sprintf_8_3\<close> is
  \<^verbatim>\<open>fmt.Sprintf("%-8.8s.%-3.3s%s", a, b, c)\<close>. After the blank extension is appended
  \<open>prts\<close> has at least two elements, so both index reads are in range.
\<close>

definition formatBaseName :: "string \<Rightarrow> string" where
  "formatBaseName name = (if length name > 8 then take 7 name @ ''+'' else name)"

definition formatExtension :: "string \<Rightarrow> string" where
  "formatExtension ext = (if length ext > 3 then take 3 ext else ext)"

definition setDirTag :: "bool \<Rightarrow> string" where
  "setDirTag isDir = (if isDir then ''<dir>'' else ''    '')"

definition Sprintf_8_3 :: "string \<Rightarrow> string \<Rightarrow> string \<Rightarrow> string" where
  "Sprintf_8_3 a b c = fmtS True 8 8 a @ ''.'' @ fmtS True 3 3 b @ c"

definition FormatFileName :: "string \<Rightarrow> bool \<Rightarrow> string" where
  "FormatFileName name isDir =
     (let prts = Split name (CHR ''.'');
          prts = (if length prts = 1 then prts @ ['' ''] else prts)
      in Sprintf_8_3 (formatBaseName (prts ! 0)) (formatExtension (prts ! 1)) (setDirTag isDir))"

text \<open>
  \<^verbatim>\<open>containsDotFile\<close> returns at the first path element that starts with a period.
\<close>

fun anyDotPart :: "string list \<Rightarrow> bool" where
  "anyDotPart [] = False"
| "anyDotPart (part # parts) = (if HasPrefix part ''.'' then True else anyDotPart parts)"

definition containsDotFile :: "string \<Rightarrow> bool" where
  "containsDotFile name = anyDotPart (Split name (CHR ''/''))"

text \<open>
  Of \<^verbatim>\<open>os.FileInfo\<close> the name and the directory flag are kept. \<^verbatim>\<open>Name()\<close> is the
  base name of the entry: the name of a file in the directory read, which has no slash.
\<close>

record FileInfo =
  Name :: string
  IsDir :: bool

text \<open>
  Modelled from the spec: the package \<^verbatim>\<open>filelist\<close> (\<^verbatim>\<open>NewFileList\<close>, \<^verbatim>\<open>AddFile\<close>,
  \<^verbatim>\<open>JSON\<close>) is not among the sources. A file list is the sequence of the entries
  added, each a name with its directory flag; \<^verbatim>\<open>JSON\<close> writes that sequence as an
  array with one object for each entry, and the response body is modelled by the
  sequence itself.
\<close>

type_synonym FileList = "FileInfo list"

definition NewFileList :: FileList where
  "NewFileList = []"

definition AddFile :: "FileList \<Rightarrow> FileInfo \<Rightarrow> FileList" where
  "AddFile fl finfo = fl @ [finfo]"

text \<open>
  \<^verbatim>\<open>sendDirectory\<close>. The argument is what \<^verbatim>\<open>hfile.Readdir(-1)\<close> returned: an error
  or the entries. The response is the status 404, or the content type and the file list
  whose JSON form is written.
\<close>

datatype response = Status nat | Listing "string \<times> string" FileList

fun addVisible :: "FileList \<Rightarrow> FileInfo list \<Rightarrow> FileList" where
  "addVisible fl [] = fl"
| "addVisible fl (finfo # files) =
     addVisible (if \<not> containsDotFile (Name finfo) then AddFile fl finfo else fl) files"

fun sendDirectory :: "string + FileInfo list \<Rightarrow> response" where
  "sendDirectory (Inl err) = Status 404"
| "sendDirectory (Inr files) =
     Listing (''Content-Type'', ''application/json'') (addVisible NewFileList files)"

text \<open>
  The words of the specification for the parts of a name: its last slash-delimited
  segment, the segment before its first period, and what follows that period.
\<close>

definition lastSegment :: "string \<Rightarrow> string" where
  "lastSegment name = last (Split name (CHR ''/''))"

definition upToPeriod :: "string \<Rightarrow> string" where
  "upToPeriod name = takeWhile (\<lambda>c. c \<noteq> CHR ''.'') name"

definition afterPeriod :: "string \<Rightarrow> string" where
  "afterPeriod name = drop 1 (dropWhile (\<lambda>c. c \<noteq> CHR ''.'') name)"

section \<open>Tokens and keywords (token/token.go)\<close>

text \<open>
  \<^verbatim>\<open>TokenType\<close> is a Go string type, and each token constant is the string the
  source gives it. Of the constants, the identifier type and the keyword types are
  needed here. \<^verbatim>\<open>ALL\<close> is written \<open>ALL_T\<close>, the name being taken by the logic.
\<close>

type_synonym TokenType = string

definition IDENT :: TokenType where "IDENT = ''IDENT''"
definition ALL_T :: TokenType where "ALL_T = ''ALL''"
definition AUTO :: TokenType where "AUTO = ''AUTO''"
definition BEEP :: TokenType where "BEEP = ''BEEP''"
definition CHAIN :: TokenType where "CHAIN = ''CHAIN''"
definition CLEAR :: TokenType where "CLEAR = ''CLEAR''"
definition CLS :: TokenType where "CLS = ''CLS''"
definition COLOR :: TokenType where "COLOR = ''COLOR''"
definition COMMON :: TokenType where "COMMON = ''COMMON''"
definition CONT :: TokenType where "CONT = ''CONT''"
definition CSRLIN :: TokenType where "CSRLIN = ''CSRLIN''"
definition DATA :: TokenType where "DATA = ''DATA''"
definition DEF :: TokenType where "DEF = ''DEF''"
definition DIM :: TokenType where "DIM = ''DIM''"
definition ELSE :: TokenType where "ELSE = ''ELSE''"
definition END :: TokenType where "END = ''END''"
definition FALSE :: TokenType where "FALSE = ''FALSE''"
definition FILES :: TokenType where "FILES = ''FILES''"
definition GOSUB :: TokenType where "GOSUB = ''GOSUB''"
definition GOTO :: TokenType where "GOTO = ''GOTO''"
definition IF :: TokenType where "IF = ''IF''"
definition LET :: TokenType where "LET = ''LET''"
definition LIST :: TokenType where "LIST = ''LIST''"
definition LOAD :: TokenType where "LOAD = ''LOAD''"
definition LOCATE :: TokenType where "LOCATE = ''LOCATE''"
definition MERGE :: TokenType where "MERGE = ''MERGE''"
definition MOD :: TokenType where "MOD = ''MOD''"
definition NEW :: TokenType where "NEW = ''NEW''"
definition PALETTE :: TokenType where "PALETTE = ''PALETTE''"
definition PRINT :: TokenType where "PRINT = ''PRINT''"
definition READ :: TokenType where "READ = ''READ''"
definition REM :: TokenType where "REM = ''REM''"
definition RESTORE :: TokenType where "RESTORE = ''RESTORE''"
definition RETURN :: TokenType where "RETURN = ''RETURN''"
definition RUN :: TokenType where "RUN = ''RUN''"
definition SCREEN :: TokenType where "SCREEN = ''SCREEN''"
definition STOP :: TokenType where "STOP = ''STOP''"
definition THEN :: TokenType where "THEN = ''THEN''"
definition TRON :: TokenType where "TRON = ''TRON''"
definition TROFF :: TokenType where "TROFF = ''TROFF''"
definition TRUE :: TokenType where "TRUE = ''TRUE''"
definition USING :: TokenType where "USING = ''USING''"

lemmas token_defs =
  IDENT_def ALL_T_def AUTO_def BEEP_def CHAIN_def CLEAR_def CLS_def COLOR_def COMMON_def
  CONT_def CSRLIN_def DATA_def DEF_def DIM_def ELSE_def END_def FALSE_def FILES_def
  GOSUB_def GOTO_def IF_def LET_def LIST_def LOAD_def LOCATE_def MERGE_def MOD_def NEW_def
  PALETTE_def PRINT_def READ_def REM_def RESTORE_def RETURN_def RUN_def SCREEN_def STOP_def
  THEN_def TRON_def TROFF_def TRUE_def USING_def

text \<open>
  The map \<^verbatim>\<open>keywords\<close>, as the list of its entries in the order of the source (a
  Go map literal has no key twice); \<open>map_of\<close> is the lookup. The name is
  \<open>keywords_map\<close> because \<^verbatim>\<open>keywords\<close> is reserved.
\<close>

definition keywords_map :: "(string \<times> TokenType) list" where
  "keywords_map =
    [(''all'', ALL_T), (''auto'', AUTO), (''beep'', BEEP), (''chain'', CHAIN), (''clear'', CLEAR),
     (''cls'', CLS), (''color'', COLOR), (''common'', COMMON), (''cont'', CONT),
     (''csrlin'', CSRLIN), (''data'', DATA), (''def'', DEF), (''dim'', DIM), (''else'', ELSE),
     (''end'', END), (''false'', FALSE), (''files'', FILES), (''gosub'', GOSUB),
     (''goto'', GOTO), (''if'', IF), (''let'', LET), (''list'', LIST), (''load'', LOAD),
     (''locate'', LOCATE), (''merge'', MERGE), (''mod'', MOD), (''new'', NEW),
     (''palette'', PALETTE), (''print'', PRINT), (''read'', READ), (''rem'', REM),
     (''restore'', RESTORE), (''return'', RETURN), (''run'', RUN), (''screen'', SCREEN),
     (''stop'', STOP), (''then'', THEN), (''tron'', TRON), (''troff'', TROFF),
     (''true'', TRUE), (''using'', USING)]"

text \<open>
  \<^verbatim>\<open>strings.ToLower\<close> of the standard library. A string of ASCII bytes is lower-cased
  byte by byte (and returned as it is when it has no capital). Any other string goes
  through \<^verbatim>\<open>strings.Map(unicode.ToLower, s)\<close>, rune by rune: an ASCII byte is
  lower-cased, a byte that does not decode is replaced by U+FFFD (\<open>RuneError\<close>, three
  bytes), and a rune outside ASCII is replaced by its lower case in the Unicode table.
  That table is not modelled in full. It gives two code points outside ASCII an ASCII
  letter as lower case: U+0130 (capital I with dot above, bytes C4 B0) gives \<^verbatim>\<open>i\<close> and
  U+212A (the Kelvin sign, bytes E2 84 AA) gives \<^verbatim>\<open>k\<close>. Every other rune outside
  ASCII has a lower case outside ASCII; \<open>lowerRune\<close> leaves its bytes as they are,
  which does not change whether the result equals a word of ASCII letters.
\<close>

definition asciiLower :: "char \<Rightarrow> char" where
  "asciiLower c =
     (if byte (CHR ''A'') \<le> byte c \<and> byte c \<le> byte (CHR ''Z'') then char_of (byte c + 32) else c)"

definition RuneError :: string where
  "RuneError = [CHR 0xEF, CHR 0xBF, CHR 0xBD]"

definition lowerRune :: "string \<Rightarrow> string" where
  "lowerRune r =
     (if r = [CHR 0xC4, CHR 0xB0] then ''i''
      else if r = [CHR 0xE2, CHR 0x84, CHR 0xAA] then ''k''
      else r)"

fun MapToLower :: "string \<Rightarrow> string" where
  "MapToLower [] = []"
| "MapToLower (c # cs) =
     (if byte c < 0x80 then asciiLower c # MapToLower cs
      else if runeWidth (c # cs) = 1 then RuneError @ MapToLower cs
      else lowerRune (take (runeWidth (c # cs)) (c # cs))
             @ MapToLower (drop (runeWidth (c # cs) - 1) cs))"

definition hasUpper :: "string \<Rightarrow> bool" where
  "hasUpper s = (\<exists>c \<in> set s. byte (CHR ''A'') \<le> byte c \<and> byte c \<le> byte (CHR ''Z''))"

definition ToLower :: "string \<Rightarrow> string" where
  "ToLower s =
     (if isASCII s then (if \<not> hasUpper s then s else map asciiLower s)
      else MapToLower s)"

text \<open>
  \<^verbatim>\<open>LookupIdent\<close>: the keyword's type when the lower-cased identifier is a key of the
  map, \<^verbatim>\<open>IDENT\<close> otherwise.
\<close>

definition LookupIdent :: "string \<Rightarrow> TokenType" where
  "LookupIdent ident =
     (case map_of keywords_map (ToLower ident) of Some tok \<Rightarrow> tok | None \<Rightarrow> IDENT)"

text \<open>
  The words of the specification: \<open>casing s k\<close> says that the string \<open>s\<close> is the
  lower-case word \<open>k\<close> in some letter-casing, each letter of \<open>k\<close> standing as it is
  or as a capital. The capital of a letter is its ASCII capital; the letters \<^verbatim>\<open>i\<close> and
  \<^verbatim>\<open>k\<close> have a second capital in Unicode, U+0130 and U+212A. \<open>lowerWord k\<close> says
  that \<open>k\<close> is made of the letters a to z.
\<close>

definition sameLetter :: "char \<Rightarrow> char \<Rightarrow> bool" where
  "sameLetter c k =
     (c = k \<or> (byte (CHR ''a'') \<le> byte k \<and> byte k \<le> byte (CHR ''z'') \<and> byte c + 32 = byte k))"

fun casing :: "string \<Rightarrow> string \<Rightarrow> bool" where
  "casing s [] = (s = [])"
| "casing s (k # ks) =
     (case s of
        [] \<Rightarrow> False
      | c # cs \<Rightarrow>
          (sameLetter c k \<and> casing cs ks)
          \<or> (k = CHR ''i'' \<and> take 2 s = [CHR 0xC4, CHR 0xB0] \<and> casing (drop 2 s) ks)
          \<or> (k = CHR ''k'' \<and> take 3 s = [CHR 0xE2, CHR 0x84, CHR 0xAA] \<and> casing (drop 3 s) ks))"

definition lowerWord :: "string \<Rightarrow> bool" where
  "lowerWord k = (\<forall>x \<in> set k. byte (CHR ''a'') \<le> byte x \<and> byte x \<le> byte (CHR ''z''))"

section \<open>Key buffer (keybuffer/keybuffer.go)\<close>

text \<open>
  The escape sequences of the function keys, as hexadecimal text.
\<close>

definition f1Key :: string where "f1Key = ''1b4f50''"
definition f2Key :: string where "f2Key = ''1b4f51''"
definition f3Key :: string where "f3Key = ''1b4f52''"
definition f4Key :: string where "f4Key = ''1b4f53''"
definition f5Key :: string where "f5Key = ''1b5b31357e''"
definition f6Key :: string where "f6Key = ''1b5b31377e''"
definition f7Key :: string where "f7Key = ''1b5b31387e''"
definition f8Key :: string where "f8Key = ''1b5b31397e''"
definition f9Key :: string where "f9Key = ''1b5b32307e''"
definition f10Key :: string where "f10Key = ''1b5b32317e''"
definition f11Key :: string where "f11Key = ''1b5b41''"
definition f12Key :: string where "f12Key = ''1b5b44''"
definition f13Key :: string where "f13Key = ''1b5b43''"
definition f14Key :: string where "f14Key = ''1b5b42''"

lemmas fKey_defs =
  f1Key_def f2Key_def f3Key_def f4Key_def f5Key_def f6Key_def f7Key_def f8Key_def f9Key_def
  f10Key_def f11Key_def f12Key_def f13Key_def f14Key_def

text \<open>
  Modelled from the spec: the package \<^verbatim>\<open>ast\<close> is not among the sources. Of
  \<^verbatim>\<open>ast.KeySettings\<close> the key buffer reads the field \<^verbatim>\<open>Keys\<close>, a map from a key's
  label (F1 to F14) to its macro text.
\<close>

record ast_KeySettings =
  Keys :: "string \<rightharpoonup> string"

text \<open>
  The struct \<^verbatim>\<open>KeyBuffer\<close>. A nil pointer, a nil channel and a nil slice are \<open>None\<close>.
  The channel \<^verbatim>\<open>keycodes\<close> is the queue of the keystrokes sent and not yet received,
  oldest first; it is made with room for 20. A nil map reads as the empty map.
  \<^verbatim>\<open>ind\<close> starts at 0 and is only ever set to 1 or incremented, so it is a natural
  number. \<open>zeroKeyBuffer\<close> is Go's zero value of the struct.

  The methods have a pointer receiver, and \<^verbatim>\<open>checkForSpecialKeys\<close> also reads the
  package's variable \<^verbatim>\<open>kbuff\<close>, which may or may not be the receiver. So the
  buffers live in a store, a function from addresses to buffers, with \<^verbatim>\<open>kbuff\<close> at
  address 0, and a method takes the store and the address of its receiver.
\<close>

record KeyBuffer =
  KeySettings :: "ast_KeySettings option"
  keycodes :: "string list option"
  inp :: "string option"
  ind :: nat
  sig_break :: bool
  spcKeys :: "string \<rightharpoonup> string"

definition zeroKeyBuffer :: KeyBuffer where
  "zeroKeyBuffer = \<lparr>KeySettings = None, keycodes = None, inp = None, ind = 0,
     sig_break = False, spcKeys = Map.empty\<rparr>"

type_synonym heap = "nat \<Rightarrow> KeyBuffer"

definition kbuff :: nat where
  "kbuff = 0"

text \<open>
  The ways a call does not return: a nil pointer is dereferenced, a slice is read out of
  range, or a send finds the channel full and waits for a receiver.
\<close>

datatype fault = NilDereference | IndexOutOfRange | SendBlocks

text \<open>
  A Go map read, which gives the empty string for a missing key;
  \<^verbatim>\<open>hex.EncodeToString\<close>; and the decimal digits that \<^verbatim>\<open>%d\<close> prints for a number
  that is not negative.
\<close>

definition mapGet :: "(string \<rightharpoonup> string) \<Rightarrow> string \<Rightarrow> string" where
  "mapGet m k = (case m k of None \<Rightarrow> [] | Some v \<Rightarrow> v)"

definition hextable :: string where
  "hextable = ''0123456789abcdef''"

fun EncodeToString :: "string \<Rightarrow> string" where
  "EncodeToString [] = []"
| "EncodeToString (v # src) =
     hextable ! (byte v div 16) # hextable ! (byte v mod 16) # EncodeToString src"

function FormatInt :: "nat \<Rightarrow> string" where
  "FormatInt n =
     (if n < 10 then [char_of (byte (CHR ''0'') + n)]
      else FormatInt (n div 10) @ [char_of (byte (CHR ''0'') + n mod 10)])"
  by pat_completeness auto
termination
  by (relation "measure id") auto

declare FormatInt.simps [simp del]

text \<open>
  \<^verbatim>\<open>GetKeyBuffer\<close> labels the fourteen sequences F1 to F14 in the map of \<^verbatim>\<open>kbuff\<close>
  and returns the address of \<^verbatim>\<open>kbuff\<close>.
\<close>

definition fkeys :: "string list" where
  "fkeys = [f1Key, f2Key, f3Key, f4Key, f5Key, f6Key, f7Key, f8Key, f9Key, f10Key, f11Key,
     f12Key, f13Key, f14Key]"

fun labelKeys :: "(string \<rightharpoonup> string) \<Rightarrow> nat \<Rightarrow> string list \<Rightarrow> (string \<rightharpoonup> string)" where
  "labelKeys m i [] = m"
| "labelKeys m i (key # keys) = labelKeys (m(key \<mapsto> ''F'' @ FormatInt (i + 1))) (i + 1) keys"

definition GetKeyBuffer :: "heap \<Rightarrow> nat \<times> heap" where
  "GetKeyBuffer h =
     (kbuff, h(kbuff := (h kbuff)\<lparr>spcKeys := labelKeys (spcKeys (h kbuff)) 0 fkeys\<rparr>))"

text \<open>
  \<^verbatim>\<open>checkForSpecialKeys\<close>, \<^verbatim>\<open>checkForCtrlC\<close> and \<^verbatim>\<open>SaveKeyStroke\<close>. \<open>makeChan\<close> is
  the first statement of \<^verbatim>\<open>SaveKeyStroke\<close>, which creates the channel when there is
  none; \<open>send\<close> is the statement \<^verbatim>\<open>buff.keycodes <- key\<close>.
\<close>

definition checkForSpecialKeys :: "heap \<Rightarrow> nat \<Rightarrow> string \<Rightarrow> fault + string" where
  "checkForSpecialKeys h buff inp' =
     (if KeySettings (h buff) = None then Inr []
      else
        let a = mapGet (spcKeys (h kbuff)) (EncodeToString inp') in
        case KeySettings (h kbuff) of
          None \<Rightarrow> Inl NilDereference
        | Some ks \<Rightarrow> Inr (mapGet (Keys ks) a))"

fun checkForCtrlC :: "heap \<Rightarrow> nat \<Rightarrow> string \<Rightarrow> heap" where
  "checkForCtrlC h buff [] = h"
| "checkForCtrlC h buff (k # inp') =
     checkForCtrlC (if k = CHR 0x03 then h(buff := (h buff)\<lparr>sig_break := True\<rparr>) else h)
       buff inp'"

definition capacity :: nat where
  "capacity = 20"

definition send :: "heap \<Rightarrow> nat \<Rightarrow> string \<Rightarrow> fault + heap" where
  "send h buff key =
     (case keycodes (h buff) of
        None \<Rightarrow> Inl SendBlocks
      | Some q \<Rightarrow>
          if length q < capacity then Inr (h(buff := (h buff)\<lparr>keycodes := Some (q @ [key])\<rparr>))
          else Inl SendBlocks)"

definition makeChan :: "heap \<Rightarrow> nat \<Rightarrow> heap" where
  "makeChan h buff =
     (if keycodes (h buff) = None then h(buff := (h buff)\<lparr>keycodes := Some []\<rparr>) else h)"

definition SaveKeyStroke :: "heap \<Rightarrow> nat \<Rightarrow> string \<Rightarrow> fault + heap" where
  "SaveKeyStroke h buff key =
     (let h1 = makeChan h buff in
      case (if length key > 1 \<and> key ! 0 = CHR 0x1B
            then checkForSpecialKeys h1 buff key else Inr key) of
        Inl f \<Rightarrow> Inl f
      | Inr key1 \<Rightarrow>
          if length key1 = 0 then Inr h1
          else (case send h1 buff key1 of
                  Inl f \<Rightarrow> Inl f
                | Inr h2 \<Rightarrow> Inr (checkForCtrlC h2 buff key1)))"

text \<open>
  \<^verbatim>\<open>BreakSeen\<close> (after its sleep of 15 ms, which is not modelled) and \<^verbatim>\<open>ClearBreak\<close>.
\<close>

definition BreakSeen :: "heap \<Rightarrow> nat \<Rightarrow> bool" where
  "BreakSeen h buff = sig_break (h buff)"

definition ClearBreak :: "heap \<Rightarrow> nat \<Rightarrow> heap" where
  "ClearBreak h buff = h(buff := (h buff)\<lparr>sig_break := False\<rparr>)"

text \<open>
  \<^verbatim>\<open>ReadByte\<close> returns a byte and an error; the error is \<open>None\<close> for nil and the
  text of the error otherwise. The \<^verbatim>\<open>select\<close> with a \<^verbatim>\<open>default\<close> receives the
  oldest keystroke when the channel holds one and takes the default branch otherwise.
\<close>

definition noData :: "char \<times> string option" where
  "noData = (CHR '' '', Some ''no data'')"

definition ReadByte :: "heap \<Rightarrow> nat \<Rightarrow> fault + ((char \<times> string option) \<times> heap)" where
  "ReadByte h buff =
     (if inp (h buff) \<noteq> None \<and> ind (h buff) < length (the (inp (h buff))) then
        (let t = ind (h buff) in
         Inr ((the (inp (h buff)) ! t, None), h(buff := (h buff)\<lparr>ind := ind (h buff) + 1\<rparr>)))
      else if keycodes (h buff) = None then Inr (noData, h)
      else
        (case the (keycodes (h buff)) of
           [] \<Rightarrow> Inr (noData, h)
         | bs # q \<Rightarrow>
             if length bs = 0 then Inl IndexOutOfRange
             else Inr ((bs ! 0, None),
                    h(buff := (h buff)\<lparr>keycodes := Some q, inp := Some bs, ind := 1\<rparr>))))"

text \<open>
  The words of the specification. \<open>pending b\<close> are the unconsumed bytes of a buffer:
  the rest of the keystroke being read, then the keystrokes in the channel. \<open>wfBuffer\<close>
  says that no keystroke in the channel is empty; \<^verbatim>\<open>SaveKeyStroke\<close>, the only sender,
  sends none. \<open>macroText\<close> is the macro text configured for a sequence: the text that
  the settings of \<^verbatim>\<open>kbuff\<close> give for the label of the sequence, empty when there are
  no settings or no text. \<open>translated\<close> is a keystroke after the macro translation
  that \<^verbatim>\<open>SaveKeyStroke\<close> applies to escape sequences. \<open>queued b\<close> are the keystrokes
  in the channel of a buffer, and \<open>room b\<close> says that a send to the channel that
  \<^verbatim>\<open>SaveKeyStroke\<close> uses (the channel of the buffer, or a new one when there is none)
  does not wait: fewer than 20 keystrokes are in it.
\<close>

definition pending :: "KeyBuffer \<Rightarrow> string" where
  "pending b =
     (case inp b of None \<Rightarrow> [] | Some bs \<Rightarrow> drop (ind b) bs)
     @ (case keycodes b of None \<Rightarrow> [] | Some q \<Rightarrow> concat q)"

definition wfBuffer :: "KeyBuffer \<Rightarrow> bool" where
  "wfBuffer b = (case keycodes b of None \<Rightarrow> True | Some q \<Rightarrow> \<forall>bs \<in> set q. bs \<noteq> [])"

definition room :: "KeyBuffer \<Rightarrow> bool" where
  "room b = (case keycodes b of None \<Rightarrow> True | Some q \<Rightarrow> length q < capacity)"

definition queued :: "KeyBuffer \<Rightarrow> string list" where
  "queued b = (case keycodes b of None \<Rightarrow> [] | Some q \<Rightarrow> q)"

definition macroText :: "heap \<Rightarrow> string \<Rightarrow> string" where
  "macroText h key =
     (case KeySettings (h kbuff) of
        None \<Rightarrow> []
      | Some ks \<Rightarrow> mapGet (Keys ks) (mapGet (spcKeys (h kbuff)) (EncodeToString key)))"

definition translated :: "heap \<Rightarrow> nat \<Rightarrow> string \<Rightarrow> fault + string" where
  "translated h buff key =
     (if length key > 1 \<and> key ! 0 = CHR 0x1B then checkForSpecialKeys h buff key else Inr key)"

text \<open>
  A session is a sequence of calls on buffers of the store: the four methods,
  \<^verbatim>\<open>GetKeyBuffer\<close>, and an assignment to the exported field \<^verbatim>\<open>KeySettings\<close>.
  \<open>runUntil h cs\<close> is the store after the calls \<open>cs\<close>, or, when one of them does not
  return, the store at that call. \<open>reachable\<close> are the stores a session reaches from
  zero-valued buffers.
\<close>

datatype call = Save nat string | Read nat | Seen nat | Clear nat | Get | SetKeys nat "ast_KeySettings option"

fun exec :: "heap \<Rightarrow> call \<Rightarrow> fault + heap" where
  "exec h (Save buff key) = SaveKeyStroke h buff key"
| "exec h (Read buff) = (case ReadByte h buff of Inl f \<Rightarrow> Inl f | Inr (r, h1) \<Rightarrow> Inr h1)"
| "exec h (Seen buff) = Inr h"
| "exec h (Clear buff) = Inr (ClearBreak h buff)"
| "exec h Get = Inr (snd (GetKeyBuffer h))"
| "exec h (SetKeys buff ks) = Inr (h(buff := (h buff)\<lparr>KeySettings := ks\<rparr>))"

fun runUntil :: "heap \<Rightarrow> call list \<Rightarrow> heap" where
  "runUntil h [] = h"
| "runUntil h (c # cs) = (case exec h c of Inl f \<Rightarrow> h | Inr h1 \<Rightarrow> runUntil h1 cs)"

inductive reachable :: "heap \<Rightarrow> bool" where
  start: "reachable (\<lambda>_. zeroKeyBuffer)"
| step: "reachable h \<Longrightarrow> exec h c = Inr h1 \<Longrightarrow> reachable h1"

section \<open>Comma-separated expressions (parser)\<close>

text \<open>
  The token types that the function tests, and the struct \<^verbatim>\<open>Token\<close>
  (token/token.go).
\<close>

definition COMMA :: TokenType where "COMMA = '',''"
definition COLON :: TokenType where "COLON = '':''"
definition EOF :: TokenType where "EOF = ''EOF''"
definition EOL :: TokenType where "EOL = ''EOL''"

record Token =
  Type :: TokenType
  Literal :: string

text \<open>
  Modelled from the spec: of the parser, only \<^verbatim>\<open>parseCommaSperatedExpressions\<close> and
  \<^verbatim>\<open>parseNextExpression\<close> are among the sources. The struct \<^verbatim>\<open>Parser\<close> is modelled
  with the current token, the next token, the tokens the lexer has yet to return (\<open>l\<close>;
  an exhausted lexer returns the end-of-input token) and the error codes reported.
\<close>

record Parser =
  l :: "Token list"
  curToken :: Token
  peekToken :: Token
  errors :: "int list"

text \<open>
  Modelled from the spec: the helpers of the parser are not among the sources.
  \<^verbatim>\<open>nextToken\<close> advances by one token; \<^verbatim>\<open>New\<close> reads the first two tokens;
  \<^verbatim>\<open>curTokenIs\<close> and \<^verbatim>\<open>peekTokenIs\<close> compare the type of the current and of the next
  token; \<^verbatim>\<open>chkEndOfStatement\<close> holds when the next token is the statement separator,
  the end of the line or the end of the input (the next token, because the source tests
  for a current comma once the statement is found to end); \<^verbatim>\<open>reportError\<close> records
  the code.
\<close>

definition NextToken :: "Token list \<Rightarrow> Token \<times> Token list" where
  "NextToken toks =
     (case toks of [] \<Rightarrow> (\<lparr>Type = EOF, Literal = []\<rparr>, []) | tok # rest \<Rightarrow> (tok, rest))"

definition nextToken :: "Parser \<Rightarrow> Parser" where
  "nextToken p =
     (case NextToken (l p) of
        (tok, rest) \<Rightarrow> p\<lparr>curToken := peekToken p, peekToken := tok, l := rest\<rparr>)"

definition New :: "Token list \<Rightarrow> Parser" where
  "New toks =
     nextToken (nextToken \<lparr>l = toks, curToken = \<lparr>Type = [], Literal = []\<rparr>,
       peekToken = \<lparr>Type = [], Literal = []\<rparr>, errors = []\<rparr>)"

definition curTokenIs :: "Parser \<Rightarrow> TokenType \<Rightarrow> bool" where
  "curTokenIs p t = (Type (curToken p) = t)"

definition peekTokenIs :: "Parser \<Rightarrow> TokenType \<Rightarrow> bool" where
  "peekTokenIs p t = (Type (peekToken p) = t)"

definition chkEndOfStatement :: "Parser \<Rightarrow> bool" where
  "chkEndOfStatement p = (peekTokenIs p COLON \<or> peekTokenIs p EOL \<or> peekTokenIs p EOF)"

definition reportError :: "Parser \<Rightarrow> int \<Rightarrow> Parser" where
  "reportError p code = p\<lparr>errors := errors p @ [code]\<rparr>"

text \<open>
  The two functions of the source. \<^verbatim>\<open>parseExpression\<close>, the expression parser, is
  not among the sources and is a parameter: it returns an expression or nil, and the
  parser after it. The loop \<^verbatim>\<open>for ; !done; p.nextToken()\<close> runs its body, then
  advances, then tests \<^verbatim>\<open>done\<close>; as the parameter may do anything to the parser, the
  loop is a partial function, with \<open>None\<close> for a loop that does not end.
\<close>

definition parseNextExpression ::
  "(Parser \<Rightarrow> 'e option \<times> Parser) \<Rightarrow> Parser \<Rightarrow> 'e option list \<Rightarrow> 'e option \<times> Parser" where
  "parseNextExpression parseExpression p exp =
     (if curTokenIs p COMMA then (None, p) else parseExpression p)"

partial_function (option) parseLoop ::
  "(Parser \<Rightarrow> 'e option \<times> Parser) \<Rightarrow> Parser \<Rightarrow> 'e option list
     \<Rightarrow> ('e option list \<times> Parser) option" where
  "parseLoop parseExpression p exp =
     (case parseNextExpression parseExpression p exp of
        (e, p1) \<Rightarrow>
          let exp1 = exp @ [e];
              p2 = (if peekTokenIs p1 COMMA then nextToken p1 else p1);
              isDone = chkEndOfStatement p2;
              p3 = (if isDone \<and> curTokenIs p2 COMMA then reportError p2 Syntax else p2);
              p4 = nextToken p3
          in if isDone then Some (exp1, p4) else parseLoop parseExpression p4 exp1)"

declare parseLoop.simps [code]

definition parseCommaSperatedExpressions ::
  "(Parser \<Rightarrow> 'e option \<times> Parser) \<Rightarrow> Parser \<Rightarrow> ('e option list \<times> Parser) option" where
  "parseCommaSperatedExpressions parseExpression p = parseLoop parseExpression p []"

text \<open>
  For the examples: tokens, an expression parser that returns the literal of the current
  token, and what the results need of \<^verbatim>\<open>parseExpression\<close>: on an identifier that a
  comma or the end of the statement follows, it returns the node of the identifier and
  leaves the parser on it.
\<close>

definition operand :: "Parser \<Rightarrow> string option \<times> Parser" where
  "operand p = (Some (Literal (curToken p)), p)"

definition identTok :: "string \<Rightarrow> Token" where
  "identTok name = \<lparr>Type = IDENT, Literal = name\<rparr>"

definition commaTok :: Token where
  "commaTok = \<lparr>Type = COMMA, Literal = '',''\<rparr>"

definition parsesIdentifiers :: "(Parser \<Rightarrow> 'e option \<times> Parser) \<Rightarrow> (Token \<Rightarrow> 'e) \<Rightarrow> bool" where
  "parsesIdentifiers parseExpression node =
     (\<forall>p. curTokenIs p IDENT \<and> (peekTokenIs p COMMA \<or> chkEndOfStatement p) \<longrightarrow>
          parseExpression p = (Some (node (curToken p)), p))"

section \<open>Lemmas on runes and formatting\<close>

lemma leadSize_cases: "leadSize x = 1 \<or> leadSize x = 2 \<or> leadSize x = 3 \<or> leadSize x = 4"
  by (simp add: leadSize_def)

lemma runeWidth_Nil [simp]: "runeWidth [] = 0"
  by (simp add: runeWidth_def)

lemma runeWidth_sz1: "s \<noteq> [] \<Longrightarrow> leadSize (byte (s ! 0)) = 1 \<Longrightarrow> runeWidth s = 1"
  by (simp add: runeWidth_def)

lemma runeWidth_sz2:
  "s \<noteq> [] \<Longrightarrow> leadSize (byte (s ! 0)) = 2 \<Longrightarrow>
   runeWidth s = (if 2 \<le> length s \<and> okFirst s then 2 else 1)"
  by (auto simp: runeWidth_def okFirst_def cont_def Let_def not_less)

lemma runeWidth_sz3:
  "s \<noteq> [] \<Longrightarrow> leadSize (byte (s ! 0)) = 3 \<Longrightarrow>
   runeWidth s = (if 3 \<le> length s \<and> okFirst s \<and> cont s 2 then 3 else 1)"
  by (auto simp: runeWidth_def okFirst_def cont_def Let_def not_less)

lemma runeWidth_sz4:
  "s \<noteq> [] \<Longrightarrow> leadSize (byte (s ! 0)) = 4 \<Longrightarrow>
   runeWidth s = (if 4 \<le> length s \<and> okFirst s \<and> cont s 2 \<and> cont s 3 then 4 else 1)"
  by (auto simp: runeWidth_def okFirst_def cont_def Let_def not_less)

lemma runeWidth_le: "runeWidth s \<le> length s"
proof (cases "s = []")
  case True then show ?thesis by simp
next
  case False
  then have "1 \<le> length s" by (cases s) simp_all
  then show ?thesis
    using False leadSize_cases [of "byte (s ! 0)"]
      runeWidth_sz1 [of s] runeWidth_sz2 [of s] runeWidth_sz3 [of s] runeWidth_sz4 [of s]
    by (elim disjE) (simp_all split: if_splits)
qed

lemma runeWidth_pos: "s \<noteq> [] \<Longrightarrow> 1 \<le> runeWidth s"
  using leadSize_cases [of "byte (s ! 0)"]
    runeWidth_sz1 [of s] runeWidth_sz2 [of s] runeWidth_sz3 [of s] runeWidth_sz4 [of s]
  by (elim disjE) (simp_all split: if_splits)

lemma okFirst_take: "2 \<le> m \<Longrightarrow> 2 \<le> length s \<Longrightarrow> okFirst (take m s) = okFirst s"
  by (simp add: okFirst_def)

lemma cont_take: "i < m \<Longrightarrow> cont (take m s) i = cont s i"
  by (simp add: cont_def)

lemma runeWidth_take:
  assumes "runeWidth s \<le> m"
  shows "runeWidth (take m s) = runeWidth s"
proof (cases "s = [] \<or> m = 0")
  case True
  then show ?thesis using assms runeWidth_pos [of s] by (cases "s = []") auto
next
  case False
  then have ne: "s \<noteq> []" and m: "0 < m" by auto
  then have ne': "take m s \<noteq> []" by (cases s) auto
  have n0: "take m s ! 0 = s ! 0" using m by simp
  from leadSize_cases [of "byte (s ! 0)"] show ?thesis
  proof (elim disjE)
    assume sz: "leadSize (byte (s ! 0)) = 1"
    then show ?thesis using ne ne' n0 by (simp add: runeWidth_sz1)
  next
    assume sz: "leadSize (byte (s ! 0)) = 2"
    then have sz': "leadSize (byte (take m s ! 0)) = 2" using n0 by simp
    show ?thesis
      using assms okFirst_take [of m s]
      by (auto simp: runeWidth_sz2 [OF ne sz] runeWidth_sz2 [OF ne' sz'] split: if_splits)
  next
    assume sz: "leadSize (byte (s ! 0)) = 3"
    then have sz': "leadSize (byte (take m s ! 0)) = 3" using n0 by simp
    show ?thesis
      using assms okFirst_take [of m s] cont_take [of 2 m s]
      by (auto simp: runeWidth_sz3 [OF ne sz] runeWidth_sz3 [OF ne' sz'] split: if_splits)
  next
    assume sz: "leadSize (byte (s ! 0)) = 4"
    then have sz': "leadSize (byte (take m s ! 0)) = 4" using n0 by simp
    show ?thesis
      using assms okFirst_take [of m s] cont_take [of 2 m s] cont_take [of 3 m s]
      by (auto simp: runeWidth_sz4 [OF ne sz] runeWidth_sz4 [OF ne' sz'] split: if_splits)
  qed
qed

lemma okFirst_append:
  "okFirst (s @ t) = (if 2 \<le> length s then okFirst s else okFirst (s @ t))"
  by (auto simp: okFirst_def nth_append)

lemma not_okFirst_append: "length s = 1 \<Longrightarrow> asciiLed t \<Longrightarrow> t \<noteq> [] \<Longrightarrow> \<not> okFirst (s @ t)"
  by (cases t) (auto simp: okFirst_def nth_append asciiLed_def acceptLo_def)

lemma cont_append: "i < length s \<Longrightarrow> cont (s @ t) i = cont s i"
  by (simp add: cont_def nth_append)

lemma not_cont_append: "asciiLed t \<Longrightarrow> t \<noteq> [] \<Longrightarrow> \<not> cont (s @ t) (length s)"
  by (cases t) (auto simp: cont_def nth_append asciiLed_def locb_def)

lemma runeWidth_append:
  assumes ne: "s \<noteq> []" and t: "asciiLed t"
  shows "runeWidth (s @ t) = runeWidth s"
proof (cases "t = []")
  case True
  then show ?thesis by simp
next
  case False
  have ne': "s @ t \<noteq> []" using ne by simp
  have n0: "(s @ t) ! 0 = s ! 0" using ne by (cases s) auto
  have of1: "2 \<le> length s \<Longrightarrow> okFirst (s @ t) = okFirst s"
    using okFirst_append [of s t] by simp
  have of2: "length s = 1 \<Longrightarrow> \<not> okFirst (s @ t)"
    using not_okFirst_append [OF _ t False] by simp
  have c2: "3 \<le> length s \<Longrightarrow> cont (s @ t) 2 = cont s 2" by (simp add: cont_append)
  have c3: "4 \<le> length s \<Longrightarrow> cont (s @ t) 3 = cont s 3" by (simp add: cont_append)
  have n2: "length s = 2 \<Longrightarrow> \<not> cont (s @ t) 2" using not_cont_append [OF t False, of s] by simp
  have n3: "length s = 3 \<Longrightarrow> \<not> cont (s @ t) 3" using not_cont_append [OF t False, of s] by simp
  have l1: "1 \<le> length s" using ne by (cases s) auto
  consider "length s = 1" | "length s = 2" | "length s = 3" | "4 \<le> length s"
    using l1 by arith
  then show ?thesis
  proof cases
    case 1
    with of2 show ?thesis
      using leadSize_cases [of "byte (s ! 0)"] n0
        runeWidth_sz1 [OF ne] runeWidth_sz2 [OF ne] runeWidth_sz3 [OF ne] runeWidth_sz4 [OF ne]
        runeWidth_sz1 [OF ne'] runeWidth_sz2 [OF ne'] runeWidth_sz3 [OF ne'] runeWidth_sz4 [OF ne']
      by (elim disjE) simp_all
  next
    case 2
    with of1 n2 show ?thesis
      using leadSize_cases [of "byte (s ! 0)"] n0
        runeWidth_sz1 [OF ne] runeWidth_sz2 [OF ne] runeWidth_sz3 [OF ne] runeWidth_sz4 [OF ne]
        runeWidth_sz1 [OF ne'] runeWidth_sz2 [OF ne'] runeWidth_sz3 [OF ne'] runeWidth_sz4 [OF ne']
      by (elim disjE) simp_all
  next
    case 3
    with of1 c2 n3 show ?thesis
      using leadSize_cases [of "byte (s ! 0)"] n0
        runeWidth_sz1 [OF ne] runeWidth_sz2 [OF ne] runeWidth_sz3 [OF ne] runeWidth_sz4 [OF ne]
        runeWidth_sz1 [OF ne'] runeWidth_sz2 [OF ne'] runeWidth_sz3 [OF ne'] runeWidth_sz4 [OF ne']
      by (elim disjE) simp_all
  next
    case 4
    with of1 c2 c3 show ?thesis
      using leadSize_cases [of "byte (s ! 0)"] n0
        runeWidth_sz1 [OF ne] runeWidth_sz2 [OF ne] runeWidth_sz3 [OF ne] runeWidth_sz4 [OF ne]
        runeWidth_sz1 [OF ne'] runeWidth_sz2 [OF ne'] runeWidth_sz3 [OF ne'] runeWidth_sz4 [OF ne']
      by (elim disjE) simp_all
  qed
qed

lemma RuneCount_unfold:
  "s \<noteq> [] \<Longrightarrow> RuneCountInString s = Suc (RuneCountInString (drop (runeWidth s) s))"
  using runeWidth_pos [of s] by (cases s) (auto simp: drop_Cons')

lemma truncateString_0 [simp]: "truncateString 0 s = []"
  by (cases s) simp_all

lemma truncateString_unfold:
  "s \<noteq> [] \<Longrightarrow> truncateString (Suc n) s =
     take (runeWidth s) s @ truncateString n (drop (runeWidth s) s)"
  using runeWidth_pos [of s] by (cases s) (auto simp: drop_Cons')

lemma truncateString_prefix: "\<exists>k. truncateString n s = take k s"
proof (induction n s rule: truncateString.induct)
  case (3 n c cs)
  let ?s = "c # cs" and ?w = "runeWidth (c # cs)"
  have w: "1 \<le> ?w" "?w \<le> length ?s" using runeWidth_pos [of ?s] runeWidth_le [of ?s] by auto
  from 3 obtain k where k: "truncateString n (drop (?w - 1) cs) = take k (drop (?w - 1) cs)"
    by blast
  have d: "drop (?w - 1) cs = drop ?w ?s" using w by (simp add: drop_Cons')
  have "truncateString (Suc n) ?s = take ?w ?s @ take k (drop ?w ?s)"
    using k d by simp
  also have "\<dots> = take (?w + k) ?s" by (simp add: take_add)
  finally show ?case by blast
qed (auto intro: exI [of _ 0])

lemma RuneCount_truncateString:
  "RuneCountInString (truncateString n s) = min n (RuneCountInString s)"
proof (induction n s rule: truncateString.induct)
  case (3 n c cs)
  let ?s = "c # cs" and ?w = "runeWidth (c # cs)"
  have w: "1 \<le> ?w" "?w \<le> length ?s" using runeWidth_pos [of ?s] runeWidth_le [of ?s] by auto
  have d: "drop (?w - 1) cs = drop ?w ?s" using w by (simp add: drop_Cons')
  obtain k where k: "truncateString n (drop ?w ?s) = take k (drop ?w ?s)"
    using truncateString_prefix by blast
  let ?t = "truncateString (Suc n) ?s"
  have t: "?t = take (?w + k) ?s" using k d by (simp add: take_add)
  have tne: "?t \<noteq> []" using w by (cases "take ?w ?s") auto
  have wt: "runeWidth ?t = ?w" unfolding t by (rule runeWidth_take) simp
  have "drop ?w ?t = truncateString n (drop ?w ?s)"
    using w d by simp
  then have "RuneCountInString ?t = Suc (RuneCountInString (truncateString n (drop ?w ?s)))"
    using RuneCount_unfold [OF tne] wt by simp
  also have "\<dots> = Suc (min n (RuneCountInString (drop ?w ?s)))" using 3 d by simp
  also have "\<dots> = min (Suc n) (RuneCountInString ?s)" using d by simp
  finally show ?case .
qed simp_all

lemma RuneCount_append:
  "asciiLed t \<Longrightarrow> RuneCountInString (s @ t) = RuneCountInString s + RuneCountInString t"
proof (induction s rule: RuneCountInString.induct)
  case 1
  then show ?case by simp
next
  case (2 c cs)
  let ?s = "c # cs" and ?w = "runeWidth (c # cs)"
  have w: "1 \<le> ?w" "?w \<le> length ?s" using runeWidth_pos [of ?s] runeWidth_le [of ?s] by auto
  have wa: "runeWidth (?s @ t) = ?w" using 2(2) runeWidth_append [of ?s t] by simp
  have d: "drop (?w - 1) cs = drop ?w ?s" using w by (simp add: drop_Cons')
  have "RuneCountInString (?s @ t) = Suc (RuneCountInString (drop ?w (?s @ t)))"
    using RuneCount_unfold [of "?s @ t"] wa by simp
  also have "drop ?w (?s @ t) = drop ?w ?s @ t" unfolding drop_append using w by simp
  also have "Suc (RuneCountInString (drop ?w ?s @ t)) =
      Suc (RuneCountInString (drop ?w ?s) + RuneCountInString t)"
    using 2 d by simp
  finally show ?case using d by simp
qed

lemma RuneCount_spaces: "RuneCountInString (replicate k (CHR '' '')) = k"
  by (induction k) (simp_all add: runeWidth_def byte_def leadSize_def)

lemma asciiLed_spaces: "asciiLed (replicate k (CHR '' ''))"
  by (cases k) (simp_all add: asciiLed_def byte_def)

lemma RuneCount_fmtS: "RuneCountInString (fmtS True w w s) = w"
  by (auto simp: fmtS_def padString_def Let_def RuneCount_append asciiLed_spaces
      RuneCount_spaces RuneCount_truncateString min_def)

section \<open>Lemmas on splitting and file names\<close>

lemma genSplit_no_sep: "sep \<notin> set s \<Longrightarrow> genSplit sep acc s = [acc @ s]"
  by (induction s arbitrary: acc) auto

lemma genSplit_at_sep:
  "sep \<notin> set b \<Longrightarrow> genSplit sep acc (b @ sep # r) = (acc @ b) # genSplit sep [] r"
  by (induction b arbitrary: acc) auto

lemma genSplit_ne: "genSplit sep acc s \<noteq> []"
  by (induction s arbitrary: acc) auto

lemma genSplit_bytes: "p \<in> set (genSplit sep acc s) \<Longrightarrow> set p \<subseteq> set acc \<union> set s"
proof (induction s arbitrary: acc)
  case Nil
  then show ?case by simp
next
  case (Cons c cs)
  show ?case
  proof (cases "c = sep")
    case True
    with Cons.prems have "p = acc \<or> p \<in> set (genSplit sep [] cs)" by simp
    then show ?thesis using Cons.IH [of "[]"] by auto
  next
    case False
    with Cons.prems have "p \<in> set (genSplit sep (acc @ [c]) cs)" by simp
    then show ?thesis using Cons.IH [of "acc @ [c]"] by auto
  qed
qed

lemma Split_bytes: "p \<in> set (Split s sep) \<Longrightarrow> set p \<subseteq> set s"
  using genSplit_bytes [of p sep "[]" s] by (simp add: Split_def)

lemma anyDotPart_iff: "anyDotPart parts = (\<exists>part \<in> set parts. HasPrefix part ''.'')"
  by (induction parts) auto

lemma addVisible_filter:
  "addVisible fl files = fl @ filter (\<lambda>f. \<not> containsDotFile (Name f)) files"
  by (induction files arbitrary: fl) (auto simp: AddFile_def)

lemma Split_ne: "Split s sep \<noteq> []"
  by (simp add: Split_def genSplit_ne)

lemma RuneCount_Sprintf_8_3:
  assumes "asciiLed c"
  shows "RuneCountInString (Sprintf_8_3 a b c) = 12 + RuneCountInString c"
proof -
  have dot: "asciiLed (''.'' @ fmtS True 3 3 b @ c)"
    by (simp add: asciiLed_def byte_def)
  have one: "RuneCountInString (''.'' @ t) = Suc (RuneCountInString t)" for t
    by (simp add: runeWidth_def byte_def leadSize_def)
  have "RuneCountInString (Sprintf_8_3 a b c) =
      RuneCountInString (fmtS True 8 8 a) + RuneCountInString (''.'' @ fmtS True 3 3 b @ c)"
    unfolding Sprintf_8_3_def using RuneCount_append [OF dot] by simp
  also have "\<dots> = 8 + Suc (RuneCountInString (fmtS True 3 3 b @ c))"
    using one [of "fmtS True 3 3 b @ c"] by (simp only: RuneCount_fmtS)
  also have "\<dots> = 8 + Suc (3 + RuneCountInString c)"
    using RuneCount_append [OF assms, of "fmtS True 3 3 b"] by (simp only: RuneCount_fmtS)
  finally show ?thesis by simp
qed

lemma setDirTag_runes:
  "asciiLed (setDirTag isDir)" "RuneCountInString (setDirTag isDir) = (if isDir then 5 else 4)"
  "length (setDirTag isDir) = (if isDir then 5 else 4)"
  by (simp_all add: setDirTag_def asciiLed_def byte_def runeWidth_def leadSize_def)

lemma RuneCount_ascii: "isASCII s \<Longrightarrow> RuneCountInString s = length s"
proof (induction s rule: RuneCountInString.induct)
  case 1
  then show ?case by simp
next
  case (2 c cs)
  then have c: "byte c < 0x80" and cs: "isASCII cs" by (simp_all add: isASCII_def)
  then have w: "runeWidth (c # cs) = 1" by (simp add: runeWidth_def leadSize_def)
  with 2 cs show ?case by simp
qed

lemma length_fmtS_ascii:
  assumes "isASCII s"
  shows "length (fmtS True w w s) = w"
proof -
  obtain k where k: "truncateString w s = take k s" using truncateString_prefix by blast
  have "isASCII (truncateString w s)"
    unfolding k using assms by (auto simp: isASCII_def dest: in_set_takeD)
  then have "length (truncateString w s) = RuneCountInString (truncateString w s)"
    by (simp add: RuneCount_ascii)
  also have "\<dots> = min w (RuneCountInString s)" by (rule RuneCount_truncateString)
  finally have l: "length (truncateString w s) = min w (RuneCountInString s)" .
  show ?thesis
    using l by (auto simp: fmtS_def padString_def Let_def RuneCount_truncateString min_def)
qed

lemma formatBaseName_ascii: "isASCII s \<Longrightarrow> isASCII (formatBaseName s)"
  by (auto simp: formatBaseName_def isASCII_def byte_def dest: in_set_takeD)

lemma formatExtension_ascii: "isASCII s \<Longrightarrow> isASCII (formatExtension s)"
  by (auto simp: formatExtension_def isASCII_def dest: in_set_takeD)

lemma prts_ascii:
  assumes "isASCII name"
  defines "prts \<equiv> (if length (Split name (CHR ''.'')) = 1 then Split name (CHR ''.'') @ ['' '']
                   else Split name (CHR ''.''))"
  shows "isASCII (prts ! 0)" "isASCII (prts ! 1)"
proof -
  have len: "2 \<le> length prts"
    using Split_ne [of name "CHR ''.''"]
    by (cases "Split name (CHR ''.'')") (auto simp: prts_def Suc_le_eq)
  have all: "p \<in> set prts \<Longrightarrow> isASCII p" for p
    using Split_bytes [of p name "CHR ''.''"] assms(1)
    by (auto simp: prts_def isASCII_def byte_def split: if_splits)
  show "isASCII (prts ! 0)" "isASCII (prts ! 1)"
    using len by (auto intro!: all nth_mem)
qed

lemma period_split:
  assumes "CHR ''.'' \<in> set name"
  shows "name = upToPeriod name @ CHR ''.'' # afterPeriod name"
proof -
  let ?P = "\<lambda>c. c \<noteq> CHR ''.''"
  have "dropWhile ?P name \<noteq> []" using assms by (simp add: dropWhile_eq_Nil_conv)
  moreover have "\<not> ?P (hd (dropWhile ?P name))"
    using assms hd_dropWhile [of ?P name] by (auto simp: dropWhile_eq_Nil_conv)
  ultimately have "dropWhile ?P name = CHR ''.'' # afterPeriod name"
    by (cases "dropWhile ?P name") (auto simp: afterPeriod_def)
  then show ?thesis
    using takeWhile_dropWhile_id [of ?P name] by (simp add: upToPeriod_def)
qed

lemma upToPeriod_no_period: "CHR ''.'' \<notin> set (upToPeriod name)"
  by (auto simp: upToPeriod_def dest: set_takeWhileD)

lemma count_afterPeriod:
  assumes "CHR ''.'' \<in> set name"
  shows "count_list name (CHR ''.'') = Suc (count_list (afterPeriod name) (CHR ''.''))"
proof -
  have "count_list (upToPeriod name) (CHR ''.'') = 0"
    using upToPeriod_no_period [of name] by (simp add: count_list_0_iff)
  then have "count_list (upToPeriod name @ CHR ''.'' # afterPeriod name) (CHR ''.'') =
      Suc (count_list (afterPeriod name) (CHR ''.''))"
    by simp
  then show ?thesis using period_split [OF assms] by simp
qed

lemma Split_two_periods:
  assumes "1 < count_list name (CHR ''.'')"
  shows "Split name (CHR ''.'') =
     upToPeriod name # upToPeriod (afterPeriod name) #
       Split (afterPeriod (afterPeriod name)) (CHR ''.'')"
proof -
  have p1: "CHR ''.'' \<in> set name"
    using assms count_list_0_iff [of name "CHR ''.''"] by auto
  have "0 < count_list (afterPeriod name) (CHR ''.'')"
    using assms count_afterPeriod [OF p1] by simp
  then have p2: "CHR ''.'' \<in> set (afterPeriod name)"
    using count_list_0_iff [of "afterPeriod name" "CHR ''.''"] by auto
  have "Split name (CHR ''.'') =
      genSplit (CHR ''.'') [] (upToPeriod name @ CHR ''.'' # afterPeriod name)"
    using period_split [OF p1] by (simp add: Split_def)
  also have "\<dots> = upToPeriod name # genSplit (CHR ''.'') [] (afterPeriod name)"
    using genSplit_at_sep [of "CHR ''.''" "upToPeriod name" "[]" "afterPeriod name"]
      upToPeriod_no_period [of name] by simp
  also have "genSplit (CHR ''.'') [] (afterPeriod name) =
      genSplit (CHR ''.'') []
        (upToPeriod (afterPeriod name) @ CHR ''.'' # afterPeriod (afterPeriod name))"
    using period_split [OF p2] by simp
  also have "\<dots> = upToPeriod (afterPeriod name) #
      genSplit (CHR ''.'') [] (afterPeriod (afterPeriod name))"
    using genSplit_at_sep [of "CHR ''.''" "upToPeriod (afterPeriod name)" "[]"
        "afterPeriod (afterPeriod name)"]
      upToPeriod_no_period [of "afterPeriod name"] by simp
  finally show ?thesis by (simp add: Split_def)
qed

lemma Split_one_period:
  assumes "CHR ''.'' \<notin> set b" and "CHR ''.'' \<notin> set e"
  shows "Split (b @ ''.'' @ e) (CHR ''.'') = [b, e]"
  using genSplit_at_sep [OF assms(1), of "[]" e] genSplit_no_sep [OF assms(2), of "[]"]
  by (simp add: Split_def)

lemma truncateString_ascii: "isASCII s \<Longrightarrow> truncateString n s = take n s"
proof (induction n s rule: truncateString.induct)
  case (3 n c cs)
  then have c: "byte c < 0x80" and cs: "isASCII cs" by (simp_all add: isASCII_def)
  then have w: "runeWidth (c # cs) = 1" by (simp add: runeWidth_def leadSize_def)
  show ?case using 3 w cs by simp
qed simp_all

lemma fmtS_ascii:
  assumes "isASCII s"
  shows "fmtS True w w s = take w s @ replicate (w - length s) (CHR '' '')"
proof -
  have a: "isASCII (take w s)" using assms by (auto simp: isASCII_def dest: in_set_takeD)
  have "RuneCountInString (take w s) = min (length s) w"
    using RuneCount_ascii [OF a] by simp
  then show ?thesis
    using assms by (auto simp: fmtS_def padString_def Let_def truncateString_ascii min_def)
qed

lemma upToPeriod_ascii: "isASCII s \<Longrightarrow> isASCII (upToPeriod s)"
  by (auto simp: isASCII_def upToPeriod_def dest: set_takeWhileD)

lemma afterPeriod_ascii: "isASCII s \<Longrightarrow> isASCII (afterPeriod s)"
  by (auto simp: isASCII_def afterPeriod_def dest: in_set_dropD set_dropWhileD)

lemma containsDotFile_iff:
  "containsDotFile name = (\<exists>part \<in> set (Split name (CHR ''/'')). HasPrefix part ''.'')"
  by (simp add: containsDotFile_def anyDotPart_iff)

lemma containsDotFile_base_name:
  "CHR ''/'' \<notin> set name \<Longrightarrow> containsDotFile name = HasPrefix (lastSegment name) ''.''"
  by (simp add: containsDotFile_def lastSegment_def Split_def genSplit_no_sep)

lemma containsDotFile_paths:
  "\<not> containsDotFile ''menu.bas''" "containsDotFile ''.gitignore''"
  "containsDotFile ''html/../main.html''"
  by (simp_all add: containsDotFile_def Split_def HasPrefix_def)

section \<open>Lemmas on lower-casing\<close>

lemma byte_eq_iff: "byte c = byte d \<longleftrightarrow> c = d"
  by (simp add: byte_def)

lemma byte_lt_256: "byte c < 256"
  by (simp add: byte_def)

lemma byte_char_of: "n < 256 \<Longrightarrow> byte (char_of n) = n"
  by (simp add: byte_def)

lemma byte_literals:
  "byte (CHR ''A'') = 65" "byte (CHR ''Z'') = 90" "byte (CHR ''a'') = 97" "byte (CHR ''z'') = 122"
  "byte (CHR ''i'') = 105" "byte (CHR ''k'') = 107"
  "byte (CHR 0xC4) = 0xC4" "byte (CHR 0xB0) = 0xB0"
  "byte (CHR 0xE2) = 0xE2" "byte (CHR 0x84) = 0x84" "byte (CHR 0xAA) = 0xAA"
  "byte (CHR 0xEF) = 0xEF"
  by (simp_all add: byte_def)

lemma asciiLower_sameLetter:
  assumes "byte c < 0x80" and "byte (CHR ''a'') \<le> byte x" and "byte x \<le> byte (CHR ''z'')"
  shows "asciiLower c = x \<longleftrightarrow> sameLetter c x"
proof (cases "byte (CHR ''A'') \<le> byte c \<and> byte c \<le> byte (CHR ''Z'')")
  case True
  then have "asciiLower c = char_of (byte c + 32)" by (simp add: asciiLower_def)
  moreover have "byte (char_of (byte c + 32)) = byte c + 32"
    using True by (simp add: byte_char_of byte_literals)
  moreover have "c \<noteq> x" using True assms by (auto simp: byte_literals)
  ultimately show ?thesis
    using assms byte_eq_iff [of "char_of (byte c + 32)" x]
    by (auto simp: sameLetter_def)
next
  case False
  then have "asciiLower c = c" by (auto simp: asciiLower_def)
  moreover have "byte c + 32 \<noteq> byte x"
    using False assms by (auto simp: byte_literals)
  ultimately show ?thesis by (auto simp: sameLetter_def)
qed

lemma not_sameLetter:
  assumes "\<not> byte c < 0x80" and "byte (CHR ''a'') \<le> byte x" and "byte x \<le> byte (CHR ''z'')"
  shows "\<not> sameLetter c x"
  using assms by (auto simp: sameLetter_def byte_literals)

lemma take2_conv: "take 2 s = [a, b] \<Longrightarrow> s = a # b # drop 2 s"
  using append_take_drop_id [of 2 s] by simp

lemma take3_conv: "take 3 s = [a, b, c] \<Longrightarrow> s = a # b # c # drop 3 s"
  using append_take_drop_id [of 3 s] by simp

lemma runeWidth_dotted_I:
  assumes "take 2 s = [CHR 0xC4, CHR 0xB0]"
  shows "runeWidth s = 2"
proof -
  obtain r where "s = CHR 0xC4 # CHR 0xB0 # r" using take2_conv [OF assms] by blast
  then show ?thesis
    by (simp add: runeWidth_def byte_def leadSize_def acceptLo_def acceptHi_def)
qed

lemma runeWidth_kelvin:
  assumes "take 3 s = [CHR 0xE2, CHR 0x84, CHR 0xAA]"
  shows "runeWidth s = 3"
proof -
  obtain r where "s = CHR 0xE2 # CHR 0x84 # CHR 0xAA # r" using take3_conv [OF assms] by blast
  then show ?thesis
    by (simp add: runeWidth_def byte_def leadSize_def acceptLo_def acceptHi_def locb_def
        hicb_def numeral_2_eq_2 numeral_3_eq_3)
qed

lemma MapToLower_Nil_iff: "MapToLower s = [] \<longleftrightarrow> s = []"
proof (cases s)
  case Nil
  then show ?thesis by simp
next
  case (Cons c cs)
  have "take (runeWidth (c # cs)) (c # cs) \<noteq> []"
    using runeWidth_pos [of "c # cs"] by (cases "runeWidth (c # cs)") auto
  then show ?thesis
    using Cons by (auto simp: RuneError_def lowerRune_def)
qed

lemma casing_Cons:
  "casing (c # cs) (k # ks) =
     ((sameLetter c k \<and> casing cs ks)
      \<or> (k = CHR ''i'' \<and> take 2 (c # cs) = [CHR 0xC4, CHR 0xB0] \<and> casing (drop 2 (c # cs)) ks)
      \<or> (k = CHR ''k'' \<and> take 3 (c # cs) = [CHR 0xE2, CHR 0x84, CHR 0xAA]
          \<and> casing (drop 3 (c # cs)) ks))"
  by simp

lemma MapToLower_multi:
  assumes "\<not> byte c < 0x80" and "runeWidth (c # cs) \<noteq> 1"
  shows "MapToLower (c # cs) =
     lowerRune (take (runeWidth (c # cs)) (c # cs)) @ MapToLower (drop (runeWidth (c # cs)) (c # cs))"
proof -
  have "1 \<le> runeWidth (c # cs)" using runeWidth_pos [of "c # cs"] by simp
  then have "drop (runeWidth (c # cs) - 1) cs = drop (runeWidth (c # cs)) (c # cs)"
    by (simp add: drop_Cons')
  then show ?thesis using assms by simp
qed

lemma MapToLower_casing:
  "lowerWord k \<Longrightarrow> (MapToLower s = k) = casing s k"
proof (induction k arbitrary: s)
  case Nil
  then show ?case by (simp add: MapToLower_Nil_iff)
next
  case (Cons x ks)
  then have x: "byte (CHR ''a'') \<le> byte x" "byte x \<le> byte (CHR ''z'')"
    and ks: "lowerWord ks" by (simp_all add: lowerWord_def)
  note IH = Cons.IH [OF ks]
  show ?case
  proof (cases s)
    case Nil
    then show ?thesis by simp
  next
    case (Cons c cs)
    let ?w = "runeWidth (c # cs)"
    have w: "1 \<le> ?w" "?w \<le> length (c # cs)"
      using runeWidth_pos [of "c # cs"] runeWidth_le [of "c # cs"] by auto
    have d: "drop (?w - 1) cs = drop ?w (c # cs)" using w by (simp add: drop_Cons')
    consider (ascii) "byte c < 0x80"
      | (invalid) "\<not> byte c < 0x80" "?w = 1"
      | (dotted) "\<not> byte c < 0x80" "?w \<noteq> 1" "take ?w (c # cs) = [CHR 0xC4, CHR 0xB0]"
      | (kelvin) "\<not> byte c < 0x80" "?w \<noteq> 1" "take ?w (c # cs) = [CHR 0xE2, CHR 0x84, CHR 0xAA]"
      | (other) "\<not> byte c < 0x80" "?w \<noteq> 1" "take ?w (c # cs) \<noteq> [CHR 0xC4, CHR 0xB0]"
          "take ?w (c # cs) \<noteq> [CHR 0xE2, CHR 0x84, CHR 0xAA]"
      by blast
    then show ?thesis
    proof cases
      case ascii
      then have c1: "c \<noteq> CHR 0xC4" "c \<noteq> CHR 0xE2" by (auto simp: byte_literals)
      have "(MapToLower (c # cs) = x # ks) = (asciiLower c = x \<and> MapToLower cs = ks)"
        using ascii by simp
      also have "\<dots> = (sameLetter c x \<and> casing cs ks)"
        using asciiLower_sameLetter [OF ascii x] IH [of cs] by simp
      also have "\<dots> = casing (c # cs) (x # ks)"
      proof -
        have "take 2 (c # cs) \<noteq> [CHR 0xC4, CHR 0xB0]"
          "take 3 (c # cs) \<noteq> [CHR 0xE2, CHR 0x84, CHR 0xAA]"
          using c1 by (auto simp: take_Cons')
        then show ?thesis unfolding casing_Cons by blast
      qed
      finally show ?thesis using Cons by simp
    next
      case invalid
      have x1: "x \<noteq> CHR 0xEF" using x by (auto simp: byte_literals)
      have l: "\<not> MapToLower (c # cs) = x # ks"
        using invalid x1 by (simp add: RuneError_def)
      have n2: "take 2 (c # cs) \<noteq> [CHR 0xC4, CHR 0xB0]"
        using runeWidth_dotted_I [of "c # cs"] invalid by auto
      have n3: "take 3 (c # cs) \<noteq> [CHR 0xE2, CHR 0x84, CHR 0xAA]"
        using runeWidth_kelvin [of "c # cs"] invalid by auto
      have "\<not> casing (c # cs) (x # ks)"
        unfolding casing_Cons using not_sameLetter [OF invalid(1) x] n2 n3 by blast
      then show ?thesis using l Cons by simp
    next
      case dotted
      have w2: "?w = 2" using dotted(3) w by (metis length_take min.absorb2 length_Cons list.size(3) numeral_2_eq_2)
      have t2: "take 2 (c # cs) = [CHR 0xC4, CHR 0xB0]" using dotted(3) w2 by simp
      have t3: "take 3 (c # cs) \<noteq> [CHR 0xE2, CHR 0x84, CHR 0xAA]"
        using runeWidth_kelvin [of "c # cs"] w2 by auto
      have lr: "lowerRune (take ?w (c # cs)) = ''i''"
        using dotted(3) by (simp add: lowerRune_def)
      have "MapToLower (c # cs) = ''i'' @ MapToLower (drop ?w (c # cs))"
        using MapToLower_multi [OF dotted(1,2)] by (simp only: lr)
      then have e: "MapToLower (c # cs) = CHR ''i'' # MapToLower (drop 2 (c # cs))"
        by (simp only: w2 append_Cons append_Nil)
      have "(MapToLower (c # cs) = x # ks) =
          (x = CHR ''i'' \<and> MapToLower (drop 2 (c # cs)) = ks)"
        unfolding e by auto
      also have "\<dots> = (x = CHR ''i'' \<and> casing (drop 2 (c # cs)) ks)"
        using IH [of "drop 2 (c # cs)"] by simp
      also have "\<dots> = casing (c # cs) (x # ks)"
        unfolding casing_Cons using not_sameLetter [OF dotted(1) x] t2 t3 by blast
      finally show ?thesis using Cons by simp
    next
      case kelvin
      have w3: "?w = 3" using kelvin(3) w by (metis length_take min.absorb2 length_Cons list.size(3) numeral_3_eq_3)
      have t3: "take 3 (c # cs) = [CHR 0xE2, CHR 0x84, CHR 0xAA]" using kelvin(3) w3 by simp
      have t2: "take 2 (c # cs) \<noteq> [CHR 0xC4, CHR 0xB0]"
        using runeWidth_dotted_I [of "c # cs"] w3 by auto
      have lr: "lowerRune (take ?w (c # cs)) = ''k''"
        using kelvin(3) by (simp add: lowerRune_def)
      have "MapToLower (c # cs) = ''k'' @ MapToLower (drop ?w (c # cs))"
        using MapToLower_multi [OF kelvin(1,2)] by (simp only: lr)
      then have e: "MapToLower (c # cs) = CHR ''k'' # MapToLower (drop 3 (c # cs))"
        by (simp only: w3 append_Cons append_Nil)
      have "(MapToLower (c # cs) = x # ks) =
          (x = CHR ''k'' \<and> MapToLower (drop 3 (c # cs)) = ks)"
        unfolding e by auto
      also have "\<dots> = (x = CHR ''k'' \<and> casing (drop 3 (c # cs)) ks)"
        using IH [of "drop 3 (c # cs)"] by simp
      also have "\<dots> = casing (c # cs) (x # ks)"
        unfolding casing_Cons using not_sameLetter [OF kelvin(1) x] t2 t3 by blast
      finally show ?thesis using Cons by simp
    next
      case other
      have cx: "c \<noteq> x" using other(1) x by (auto simp: byte_literals)
      have hd: "take ?w (c # cs) = c # take (?w - 1) cs" using w by (simp add: take_Cons')
      have "lowerRune (take ?w (c # cs)) = c # take (?w - 1) cs"
        using other(3,4) hd by (simp only: lowerRune_def if_False)
      then have "MapToLower (c # cs) = c # (take (?w - 1) cs @ MapToLower (drop ?w (c # cs)))"
        using MapToLower_multi [OF other(1,2)] by simp
      then have l: "\<not> MapToLower (c # cs) = x # ks"
        using cx by simp
      have n2: "take 2 (c # cs) \<noteq> [CHR 0xC4, CHR 0xB0]"
        using runeWidth_dotted_I [of "c # cs"] other by auto
      have n3: "take 3 (c # cs) \<noteq> [CHR 0xE2, CHR 0x84, CHR 0xAA]"
        using runeWidth_kelvin [of "c # cs"] other by auto
      have "\<not> casing (c # cs) (x # ks)"
        unfolding casing_Cons using not_sameLetter [OF other(1) x] n2 n3 by blast
      then show ?thesis using l Cons by simp
    qed
  qed
qed

lemma MapToLower_ascii: "isASCII s \<Longrightarrow> MapToLower s = map asciiLower s"
  by (induction s) (simp_all add: isASCII_def)

lemma asciiLower_no_upper: "\<not> hasUpper s \<Longrightarrow> map asciiLower s = s"
  by (induction s) (auto simp: hasUpper_def asciiLower_def)

lemma ToLower_MapToLower: "ToLower s = MapToLower s"
  by (simp add: ToLower_def MapToLower_ascii asciiLower_no_upper)

lemma keywords_lower: "(k, tok) \<in> set keywords_map \<Longrightarrow> lowerWord k"
  by (auto simp: keywords_map_def lowerWord_def byte_def)

lemma keywords_distinct: "distinct (map fst keywords_map)"
  by (simp add: keywords_map_def)

lemma keywords_not_IDENT: "(k, tok) \<in> set keywords_map \<Longrightarrow> tok \<noteq> IDENT"
  by (auto simp: keywords_map_def token_defs)

text \<open>
  For a string of ASCII bytes, a casing of a word is the word letter by letter, each
  letter as it is or as its ASCII capital. A string with the code point U+0130 can be a
  casing too: \<^verbatim>\<open>LookupIdent\<close> takes the bytes C4 B0 46 for the keyword \<^verbatim>\<open>if\<close>.
\<close>

lemma casing_ascii: "isASCII s \<Longrightarrow> casing s k = list_all2 sameLetter s k"
proof (induction k arbitrary: s)
  case Nil
  then show ?case by simp
next
  case (Cons x ks)
  show ?case
  proof (cases s)
    case Nil
    then show ?thesis by simp
  next
    case (Cons c cs)
    with Cons.prems have c: "byte c < 0x80" and cs: "isASCII cs" by (simp_all add: isASCII_def)
    then have c1: "c \<noteq> CHR 0xC4" "c \<noteq> CHR 0xE2" by (auto simp: byte_literals)
    have "take 2 (c # cs) \<noteq> [CHR 0xC4, CHR 0xB0]"
      "take 3 (c # cs) \<noteq> [CHR 0xE2, CHR 0x84, CHR 0xAA]"
      using c1 by (auto simp: take_Cons')
    then have "casing (c # cs) (x # ks) = (sameLetter c x \<and> casing cs ks)"
      unfolding casing_Cons by blast
    then show ?thesis using Cons Cons.IH [OF cs] by simp
  qed
qed

lemma LookupIdent_dotted_I: "LookupIdent [CHR 0xC4, CHR 0xB0, CHR ''F''] = IF"
  by code_simp

section \<open>Lemmas on the key buffer\<close>

lemma checkForCtrlC_other: "r \<noteq> buff \<Longrightarrow> checkForCtrlC h buff key r = h r"
  by (induction key arbitrary: h) auto

lemma checkForCtrlC_self:
  "checkForCtrlC h buff key buff =
     (h buff)\<lparr>sig_break := sig_break (h buff) \<or> CHR 0x03 \<in> set key\<rparr>"
  by (induction key arbitrary: h) auto

lemma checkForCtrlC_fields:
  "keycodes (checkForCtrlC h buff key r) = keycodes (h r)"
  "inp (checkForCtrlC h buff key r) = inp (h r)"
  "ind (checkForCtrlC h buff key r) = ind (h r)"
  "KeySettings (checkForCtrlC h buff key r) = KeySettings (h r)"
  "spcKeys (checkForCtrlC h buff key r) = spcKeys (h r)"
  by (cases "r = buff"; simp add: checkForCtrlC_self checkForCtrlC_other)+

lemma checkForCtrlC_break:
  "sig_break (checkForCtrlC h buff key r) =
     (sig_break (h r) \<or> (r = buff \<and> CHR 0x03 \<in> set key))"
  by (cases "r = buff") (simp_all add: checkForCtrlC_self checkForCtrlC_other)

lemma wfBuffer_checkForCtrlC: "wfBuffer (checkForCtrlC h buff key r) = wfBuffer (h r)"
  by (simp add: wfBuffer_def checkForCtrlC_fields)

lemma pending_checkForCtrlC: "pending (checkForCtrlC h buff key r) = pending (h r)"
  by (simp add: pending_def checkForCtrlC_fields split: option.splits)

lemma makeChan_fields:
  "inp (makeChan h buff r) = inp (h r)" "ind (makeChan h buff r) = ind (h r)"
  "KeySettings (makeChan h buff r) = KeySettings (h r)"
  "spcKeys (makeChan h buff r) = spcKeys (h r)"
  "sig_break (makeChan h buff r) = sig_break (h r)"
  by (simp_all add: makeChan_def)

lemma makeChan_keycodes:
  "keycodes (makeChan h buff r) =
     (if r = buff \<and> keycodes (h r) = None then Some [] else keycodes (h r))"
  by (auto simp: makeChan_def)

lemma makeChan_wf: "wfBuffer (makeChan h buff r) = wfBuffer (h r)"
  by (auto simp: wfBuffer_def makeChan_keycodes split: option.splits)

lemma makeChan_pending: "pending (makeChan h buff r) = pending (h r)"
  by (auto simp: pending_def makeChan_keycodes makeChan_fields split: option.splits)

lemma checkForSpecialKeys_makeChan:
  "checkForSpecialKeys (makeChan h buff) r key = checkForSpecialKeys h r key"
  by (simp add: checkForSpecialKeys_def makeChan_fields)

lemma translated_makeChan: "translated (makeChan h buff) r key = translated h r key"
  by (simp add: translated_def checkForSpecialKeys_makeChan)

lemma send_Inr:
  assumes "send h buff key = Inr h2"
  shows "\<exists>q. keycodes (h buff) = Some q \<and> length q < capacity
          \<and> h2 = h(buff := (h buff)\<lparr>keycodes := Some (q @ [key])\<rparr>)"
  using assms by (auto simp: send_def split: option.splits if_splits)

lemma send_wf:
  assumes "send h buff key = Inr h2" and "key \<noteq> []" and "wfBuffer (h r)"
  shows "wfBuffer (h2 r)"
proof -
  obtain q where q: "keycodes (h buff) = Some q"
    "h2 = h(buff := (h buff)\<lparr>keycodes := Some (q @ [key])\<rparr>)"
    using send_Inr [OF assms(1)] by blast
  show ?thesis
    using assms(2,3) q by (cases "r = buff") (auto simp: wfBuffer_def)
qed

lemma SaveKeyStroke_Inr:
  assumes "SaveKeyStroke h buff key = Inr h1"
  shows "\<exists>key1. translated h buff key = Inr key1
          \<and> (if key1 = [] then h1 = makeChan h buff
               else \<exists>h2. send (makeChan h buff) buff key1 = Inr h2
                      \<and> h1 = checkForCtrlC h2 buff key1)"
proof -
  let ?t = "if length key > 1 \<and> key ! 0 = CHR 0x1B
            then checkForSpecialKeys (makeChan h buff) buff key else Inr key"
  have t: "?t = translated h buff key"
    using translated_makeChan [of h buff buff key] by (simp add: translated_def)
  show ?thesis
  proof (cases "translated h buff key")
    case (Inl f)
    then show ?thesis using assms t by (simp add: SaveKeyStroke_def Let_def)
  next
    case (Inr key1)
    then show ?thesis
      using assms t
      by (cases "send (makeChan h buff) buff key1")
         (auto simp: SaveKeyStroke_def Let_def split: if_splits)
  qed
qed

lemma SaveKeyStroke_wf:
  assumes "SaveKeyStroke h buff key = Inr h1" and "wfBuffer (h r)"
  shows "wfBuffer (h1 r)"
proof -
  obtain key1 where k: "translated h buff key = Inr key1"
    and c: "if key1 = [] then h1 = makeChan h buff
            else \<exists>h2. send (makeChan h buff) buff key1 = Inr h2
                   \<and> h1 = checkForCtrlC h2 buff key1"
    using SaveKeyStroke_Inr [OF assms(1)] by blast
  show ?thesis
  proof (cases "key1 = []")
    case True
    then show ?thesis using c assms(2) by (simp add: makeChan_wf)
  next
    case False
    then obtain h2 where "send (makeChan h buff) buff key1 = Inr h2"
      and "h1 = checkForCtrlC h2 buff key1" using c by auto
    then show ?thesis
      using send_wf [of "makeChan h buff" buff key1 h2 r] False assms(2)
      by (simp add: wfBuffer_checkForCtrlC makeChan_wf)
  qed
qed

lemma ReadByte_wf:
  assumes "ReadByte h buff = Inr (res, h1)" and "wfBuffer (h r)"
  shows "wfBuffer (h1 r)"
  using assms
  by (auto simp: ReadByte_def Let_def wfBuffer_def
      split: sum.splits if_splits option.splits list.splits) blast+

lemma exec_wf:
  assumes "exec h c = Inr h1" and "\<forall>r. wfBuffer (h r)"
  shows "wfBuffer (h1 r)"
proof (cases c)
  case (Save buff key)
  then show ?thesis using assms SaveKeyStroke_wf by auto
next
  case (Read buff)
  then show ?thesis using assms ReadByte_wf by (auto split: sum.splits)
next
  case (Seen buff)
  then show ?thesis using assms by auto
next
  case (Clear buff)
  then show ?thesis using assms by (auto simp: ClearBreak_def wfBuffer_def)
next
  case Get
  then show ?thesis using assms by (auto simp: GetKeyBuffer_def wfBuffer_def)
next
  case (SetKeys buff ks)
  then show ?thesis using assms by (auto simp: wfBuffer_def)
qed

lemma reachable_wf: "reachable h \<Longrightarrow> wfBuffer (h r)"
proof (induction arbitrary: r rule: reachable.induct)
  case start
  then show ?case by (simp add: wfBuffer_def zeroKeyBuffer_def)
next
  case (step h c h1)
  then show ?case using exec_wf by blast
qed

lemma SaveKeyStroke_break:
  assumes "SaveKeyStroke h buff key = Inr h1"
  shows "\<exists>key1. translated h buff key = Inr key1
          \<and> (\<forall>r. sig_break (h1 r) = (sig_break (h r) \<or> (r = buff \<and> CHR 0x03 \<in> set key1)))"
proof -
  obtain key1 where k: "translated h buff key = Inr key1"
    and c: "if key1 = [] then h1 = makeChan h buff
            else \<exists>h2. send (makeChan h buff) buff key1 = Inr h2
                   \<and> h1 = checkForCtrlC h2 buff key1"
    using SaveKeyStroke_Inr [OF assms] by blast
  have "sig_break (h1 r) = (sig_break (h r) \<or> (r = buff \<and> CHR 0x03 \<in> set key1))" for r
  proof (cases "key1 = []")
    case True
    then show ?thesis using c by (simp add: makeChan_fields)
  next
    case False
    then obtain h2 where s: "send (makeChan h buff) buff key1 = Inr h2"
      and h1: "h1 = checkForCtrlC h2 buff key1" using c by auto
    obtain q where "h2 = (makeChan h buff)(buff := (makeChan h buff buff)\<lparr>keycodes := Some (q @ [key1])\<rparr>)"
      using send_Inr [OF s] by blast
    then have "sig_break (h2 r) = sig_break (h r)"
      by (cases "r = buff") (simp_all add: makeChan_fields)
    then show ?thesis using h1 by (simp add: checkForCtrlC_break)
  qed
  then show ?thesis using k by blast
qed

lemma ReadByte_break:
  assumes "ReadByte h buff = Inr (res, h1)"
  shows "sig_break (h1 r) = sig_break (h r)"
  using assms
  by (cases "r = buff")
     (auto simp: ReadByte_def Let_def split: option.splits if_splits list.splits)

lemma exec_break:
  assumes "exec h c = Inr h1" and "c \<noteq> Clear buff" and "sig_break (h buff)"
  shows "sig_break (h1 buff)"
proof (cases c)
  case (Save r key)
  then show ?thesis using assms SaveKeyStroke_break [of h r key h1] by auto
next
  case (Read r)
  then show ?thesis using assms ReadByte_break [of h r _ h1 buff] by (auto split: sum.splits)
next
  case (Seen r)
  then show ?thesis using assms by auto
next
  case (Clear r)
  then show ?thesis using assms by (auto simp: ClearBreak_def)
next
  case Get
  then show ?thesis using assms by (auto simp: GetKeyBuffer_def)
next
  case (SetKeys r ks)
  then show ?thesis using assms by auto
qed

lemma runUntil_break:
  "Clear buff \<notin> set cs \<Longrightarrow> sig_break (h buff) \<Longrightarrow> sig_break (runUntil h cs buff)"
proof (induction cs arbitrary: h)
  case Nil
  then show ?case by simp
next
  case (Cons c cs)
  show ?case
  proof (cases "exec h c")
    case (Inl f)
    then show ?thesis using Cons.prems by simp
  next
    case (Inr h1)
    have "sig_break (h1 buff)" using exec_break [OF Inr] Cons.prems by auto
    then show ?thesis using Cons.IH [of h1] Cons.prems Inr by simp
  qed
qed

lemma translated_returns:
  assumes "buff = kbuff \<or> KeySettings (h buff) = None \<or> KeySettings (h kbuff) \<noteq> None"
  shows "\<exists>key1. translated h buff key = Inr key1"
  using assms
  by (auto simp: translated_def checkForSpecialKeys_def Let_def split: option.splits)

lemma send_makeChan:
  "send (makeChan h buff) buff key1 =
     (if room (h buff)
      then Inr ((makeChan h buff)(buff := (makeChan h buff buff)\<lparr>keycodes := Some (queued (h buff) @ [key1])\<rparr>))
      else Inl SendBlocks)"
  by (auto simp: send_def makeChan_def room_def queued_def capacity_def split: option.splits)

lemma SaveKeyStroke_cases:
  assumes "translated h buff key = Inr key1"
  shows "SaveKeyStroke h buff key =
     (if key1 = [] then Inr (makeChan h buff)
      else if room (h buff)
      then Inr (checkForCtrlC
             ((makeChan h buff)(buff := (makeChan h buff buff)\<lparr>keycodes := Some (queued (h buff) @ [key1])\<rparr>))
             buff key1)
      else Inl SendBlocks)"
proof -
  have t: "(if length key > 1 \<and> key ! 0 = CHR 0x1B
            then checkForSpecialKeys (makeChan h buff) buff key else Inr key) = Inr key1"
    using assms translated_makeChan [of h buff buff key] by (simp add: translated_def)
  show ?thesis
    unfolding SaveKeyStroke_def Let_def t
    by (simp add: send_makeChan)
qed

section \<open>Lemmas on the expression list\<close>

lemmas parser_defs =
  New_def nextToken_def NextToken_def curTokenIs_def peekTokenIs_def chkEndOfStatement_def
  reportError_def parseNextExpression_def identTok_def commaTok_def
  COMMA_def COLON_def EOF_def EOL_def IDENT_def

lemma parsesIdentifiers_at:
  assumes "parsesIdentifiers pe node" and "curTokenIs p IDENT"
    and "peekTokenIs p COMMA \<or> chkEndOfStatement p"
  shows "pe p = (Some (node (curToken p)), p)"
  using assms by (simp add: parsesIdentifiers_def)

lemma parsesIdentifiers_operand: "parsesIdentifiers operand Literal"
  by (simp add: parsesIdentifiers_def operand_def)

lemma parseCommaSperatedExpressions_elided:
  assumes "parsesIdentifiers pe node"
  shows "\<exists>p. parseCommaSperatedExpressions pe (New [identTok ''A'', commaTok, commaTok, identTok ''B''])
           = Some ([Some (node (identTok ''A'')), None, Some (node (identTok ''B''))], p)
         \<and> errors p = []"
  unfolding parseCommaSperatedExpressions_def
  apply (subst parseLoop.simps)
  apply (simp add: parser_defs parsesIdentifiers_at [OF assms])
  apply (subst parseLoop.simps)
  apply (simp add: parser_defs parsesIdentifiers_at [OF assms])
  apply (subst parseLoop.simps)
  apply (simp add: parser_defs parsesIdentifiers_at [OF assms])
  done

lemma parseCommaSperatedExpressions_trailing:
  assumes "parsesIdentifiers pe node"
  shows "\<exists>p. parseCommaSperatedExpressions pe (New [identTok ''A'', commaTok, identTok ''B'', commaTok])
           = Some ([Some (node (identTok ''A'')), Some (node (identTok ''B''))], p)
         \<and> errors p = [Syntax]"
  unfolding parseCommaSperatedExpressions_def
  apply (subst parseLoop.simps)
  apply (simp add: parser_defs parsesIdentifiers_at [OF assms])
  apply (subst parseLoop.simps)
  apply (simp add: parser_defs parsesIdentifiers_at [OF assms])
  done

lemma parseCommaSperatedExpressions_leading_pair:
  assumes "parsesIdentifiers pe node"
  shows "\<exists>p. parseCommaSperatedExpressions pe (New [commaTok, commaTok, identTok ''B''])
           = Some ([None, Some (node (identTok ''B''))], p)
         \<and> errors p = []"
  unfolding parseCommaSperatedExpressions_def
  apply (subst parseLoop.simps)
  apply (simp add: parser_defs parsesIdentifiers_at [OF assms])
  apply (subst parseLoop.simps)
  apply (simp add: parser_defs parsesIdentifiers_at [OF assms])
  done

section \<open>Results\<close>

text \<open>
  C1. \<^verbatim>\<open>TextForError\<close> is a function of its argument alone, defined on every integer:
  each code with a case in the switch gives its canonical text (\<^verbatim>\<open>DivByZero\<close> gives
  "Division by zero"), and every integer without a case, the gap values of the constant
  block among them, gives "Unprintable error".
\<close>

theorem TextForError_total:
  "TextForError DivByZero = ''Division by zero''
   \<and> map TextForError catalog =
       [''Can't continue'', ''Division by zero'', ''File not found'', ''Illegal direct'',
        ''NEXT without FOR'', ''Out of DATA'', ''Overflow'', ''RETURN without GOSUB'',
        ''Syntax error'', ''Type mismatch'', ''Undefined line number'', ''Path not found'']
   \<and> (\<forall>err. err \<notin> set catalog \<longrightarrow> TextForError err = ''Unprintable error'')"
  by (simp add: TextForError_def catalog_def berrors_defs)

theorem TextForError_total_witness:
  "31 \<notin> set catalog \<and> TextForError 31 = ''Unprintable error''
   \<and> - 1 \<notin> set catalog \<and> TextForError (- 1) = ''Unprintable error''
   \<and> PermissionDenied \<notin> set catalog \<and> TextForError PermissionDenied = ''Unprintable error''"
proof -
  have a: "31 \<notin> set catalog" and b: "- 1 \<notin> set catalog"
    and c: "PermissionDenied \<notin> set catalog"
    by (simp_all add: catalog_def berrors_defs)
  from TextForError_total have
    u: "\<forall>err. err \<notin> set catalog \<longrightarrow> TextForError err = ''Unprintable error''"
    by blast
  from u a have "TextForError 31 = ''Unprintable error''" by blast
  moreover from u b have "TextForError (- 1) = ''Unprintable error''" by blast
  moreover from u c have "TextForError PermissionDenied = ''Unprintable error''" by blast
  ultimately show ?thesis using a b c by blast
qed

text \<open>
  C2 (as amended). The string returned by \<^verbatim>\<open>FormatFileName\<close> has 17 characters when
  the directory flag is set and 16 when it is not: eight for the base name, the period,
  three for the extension, and the tag \<^verbatim>\<open><dir>\<close> of five characters or the four
  spaces. Characters are counted as \<^verbatim>\<open>fmt\<close> counts them, in runes; for a name of ASCII
  bytes the length in bytes is the same number.
\<close>

theorem FormatFileName_width:
  "RuneCountInString (FormatFileName name isDir) = (if isDir then 17 else 16)
   \<and> (isASCII name \<longrightarrow> length (FormatFileName name isDir) = (if isDir then 17 else 16))"
proof
  show "RuneCountInString (FormatFileName name isDir) = (if isDir then 17 else 16)"
    by (simp add: FormatFileName_def Let_def RuneCount_Sprintf_8_3 setDirTag_runes)
next
  show "isASCII name \<longrightarrow> length (FormatFileName name isDir) = (if isDir then 17 else 16)"
  proof
    assume a: "isASCII name"
    show "length (FormatFileName name isDir) = (if isDir then 17 else 16)"
      using prts_ascii [OF a]
      by (simp add: FormatFileName_def Let_def Sprintf_8_3_def setDirTag_runes
          length_fmtS_ascii formatBaseName_ascii formatExtension_ascii)
  qed
qed

theorem FormatFileName_width_witness:
  "isASCII ''menu.bas'' \<and> length (FormatFileName ''menu.bas'' True) = 17
   \<and> length (FormatFileName ''menu.bas'' False) = 16"
proof -
  have a: "isASCII ''menu.bas''" by (simp add: isASCII_def byte_def)
  show ?thesis
    using a FormatFileName_width [of "''menu.bas''" True]
      FormatFileName_width [of "''menu.bas''" False]
    by simp
qed

text \<open>
  C2 as stated (17 characters for every value of the flag) fails at the first golden
  output of the test suite, which has 16 characters.
\<close>

theorem FormatFileName_width_counterexample:
  "length (FormatFileName ''basic'' False) = 16
   \<and> RuneCountInString (FormatFileName ''basic'' False) = 16
   \<and> length (FormatFileName ''basic'' False) \<noteq> 17"
  by code_simp

text \<open>
  C3. The entries of a listing are files of the directory read, named by their base
  names, which have no slash. \<^verbatim>\<open>sendDirectory\<close> lists these entries in their order
  and leaves out exactly those whose name's last slash-delimited segment starts with a
  period: an entry is left out of the list that is written as JSON iff the last segment
  of its name starts with a period.
\<close>

theorem sendDirectory_filter:
  assumes "\<forall>f \<in> set files. CHR ''/'' \<notin> set (Name f)"
  shows "\<exists>fl. sendDirectory (Inr files) = Listing (''Content-Type'', ''application/json'') fl
     \<and> fl = filter (\<lambda>f. \<not> HasPrefix (lastSegment (Name f)) ''.'') files
     \<and> (\<forall>f \<in> set files. f \<notin> set fl \<longleftrightarrow> HasPrefix (lastSegment (Name f)) ''.'')"
proof -
  have "filter (\<lambda>f. \<not> containsDotFile (Name f)) files =
      filter (\<lambda>f. \<not> HasPrefix (lastSegment (Name f)) ''.'') files"
    using assms by (intro filter_cong) (auto simp: containsDotFile_base_name)
  then show ?thesis by (auto simp: addVisible_filter NewFileList_def)
qed

theorem sendDirectory_filter_witness:
  "CHR ''/'' \<notin> set ''hello.bas'' \<and> CHR ''/'' \<notin> set ''.gitignore'' \<and> CHR ''/'' \<notin> set ''menu.bas''
   \<and> sendDirectory (Inr [\<lparr>Name = ''hello.bas'', IsDir = False\<rparr>,
         \<lparr>Name = ''.gitignore'', IsDir = False\<rparr>, \<lparr>Name = ''menu.bas'', IsDir = False\<rparr>])
      = Listing (''Content-Type'', ''application/json'')
          [\<lparr>Name = ''hello.bas'', IsDir = False\<rparr>, \<lparr>Name = ''menu.bas'', IsDir = False\<rparr>]
   \<and> HasPrefix (lastSegment ''.gitignore'') ''.''
   \<and> \<not> HasPrefix (lastSegment ''hello.bas'') ''.''
   \<and> \<not> HasPrefix (lastSegment ''menu.bas'') ''.''"
proof -
  let ?files = "[\<lparr>Name = ''hello.bas'', IsDir = False\<rparr>,
         \<lparr>Name = ''.gitignore'', IsDir = False\<rparr>, \<lparr>Name = ''menu.bas'', IsDir = False\<rparr>]"
  have a: "\<forall>f \<in> set ?files. CHR ''/'' \<notin> set (Name f)" by simp
  have l: "HasPrefix (lastSegment ''.gitignore'') ''.''"
    "\<not> HasPrefix (lastSegment ''hello.bas'') ''.''"
    "\<not> HasPrefix (lastSegment ''menu.bas'') ''.''"
    by (simp_all add: lastSegment_def Split_def HasPrefix_def)
  from sendDirectory_filter [OF a]
  have "sendDirectory (Inr ?files) = Listing (''Content-Type'', ''application/json'')
      (filter (\<lambda>f. \<not> HasPrefix (lastSegment (Name f)) ''.'') ?files)"
    by blast
  then show ?thesis using l by simp
qed

text \<open>
  C4. On the list \<^verbatim>\<open>A,,,B\<close> (an identifier, three commas, an identifier) the function
  returns three positions (the identifier, nil, the identifier) and reports no error:
  the result it also gives for \<^verbatim>\<open>A,,B\<close>. The second and the third comma are both
  not preceded by an expression, and C4 gives each a nil element at its position, four
  positions in all; the source, after the nil element for the second comma, takes the
  third for the separator and skips it. On the two lists that C4 names the function does
  what C4 says: \<^verbatim>\<open>A,,B\<close> gives three positions with the middle one nil and no error
  (\<open>parseCommaSperatedExpressions_elided\<close>), and \<^verbatim>\<open>A,B,\<close> reports \<^verbatim>\<open>Syntax\<close>
  (\<open>parseCommaSperatedExpressions_trailing\<close>).
\<close>

theorem parseCommaSperatedExpressions_three_commas:
  assumes "parsesIdentifiers pe node"
  shows "\<exists>p. parseCommaSperatedExpressions pe
             (New [identTok ''A'', commaTok, commaTok, commaTok, identTok ''B''])
           = Some ([Some (node (identTok ''A'')), None, Some (node (identTok ''B''))], p)
         \<and> errors p = []"
  unfolding parseCommaSperatedExpressions_def
  apply (subst parseLoop.simps)
  apply (simp add: parser_defs parsesIdentifiers_at [OF assms])
  apply (subst parseLoop.simps)
  apply (simp add: parser_defs parsesIdentifiers_at [OF assms])
  apply (subst parseLoop.simps)
  apply (simp add: parser_defs parsesIdentifiers_at [OF assms])
  done

theorem parseCommaSperatedExpressions_three_commas_witness:
  "parsesIdentifiers operand Literal
   \<and> (\<exists>p. parseCommaSperatedExpressions operand
              (New [identTok ''A'', commaTok, commaTok, commaTok, identTok ''B''])
            = Some ([Some ''A'', None, Some ''B''], p)
          \<and> errors p = [])"
  using parseCommaSperatedExpressions_three_commas [OF parsesIdentifiers_operand]
    parsesIdentifiers_operand
  by (simp add: identTok_def)

text \<open>
  C5. For every string that is a keyword in some letter-casing, \<^verbatim>\<open>LookupIdent\<close>
  returns the type of that keyword, which is the same for all its casings and is not
  \<^verbatim>\<open>IDENT\<close>; for every string that is not a casing of any keyword, it returns
  \<^verbatim>\<open>IDENT\<close>. The strings are all byte strings, and the capitals of a letter are those
  of the case table that \<^verbatim>\<open>strings.ToLower\<close> uses (see \<open>casing\<close>; for a string
  of ASCII bytes these are the ASCII capitals, \<open>casing_ascii\<close>).
\<close>

theorem LookupIdent_casing:
  "(\<forall>k tok. (k, tok) \<in> set keywords_map \<and> casing ident k \<longrightarrow>
       LookupIdent ident = tok \<and> tok \<noteq> IDENT)
   \<and> ((\<forall>k tok. (k, tok) \<in> set keywords_map \<longrightarrow> \<not> casing ident k) \<longrightarrow>
       LookupIdent ident = IDENT)"
proof (intro conjI allI impI)
  fix k tok
  assume a: "(k, tok) \<in> set keywords_map \<and> casing ident k"
  then have "ToLower ident = k"
    using MapToLower_casing [OF keywords_lower, of k tok ident] by (simp add: ToLower_MapToLower)
  moreover have "map_of keywords_map k = Some tok"
    using a keywords_distinct by simp
  ultimately show "LookupIdent ident = tok" by (simp add: LookupIdent_def)
  show "tok \<noteq> IDENT" using a keywords_not_IDENT by blast
next
  assume a: "\<forall>k tok. (k, tok) \<in> set keywords_map \<longrightarrow> \<not> casing ident k"
  have "map_of keywords_map (ToLower ident) = None"
  proof (cases "map_of keywords_map (ToLower ident)")
    case None
    then show ?thesis .
  next
    case (Some tok)
    then have m: "(ToLower ident, tok) \<in> set keywords_map" by (rule map_of_SomeD)
    then have "casing ident (ToLower ident)"
      using MapToLower_casing [OF keywords_lower [OF m], of ident]
      by (simp add: ToLower_MapToLower)
    with a m show ?thesis by blast
  qed
  then show "LookupIdent ident = IDENT" by (simp add: LookupIdent_def)
qed

theorem LookupIdent_casing_witness:
  "(''print'', PRINT) \<in> set keywords_map
   \<and> casing ''Print'' ''print'' \<and> casing ''PRINT'' ''print'' \<and> casing ''print'' ''print''
   \<and> LookupIdent ''Print'' = PRINT \<and> LookupIdent ''PRINT'' = PRINT
   \<and> LookupIdent ''print'' = PRINT
   \<and> \<not> (\<exists>k tok. (k, tok) \<in> set keywords_map \<and> casing ''printx'' k)
   \<and> LookupIdent ''printx'' = IDENT"
proof -
  have m: "(''print'', PRINT) \<in> set keywords_map" by (simp add: keywords_map_def)
  have c: "casing ''Print'' ''print''" "casing ''PRINT'' ''print''" "casing ''print'' ''print''"
    by (simp_all add: sameLetter_def byte_def)
  have n: "\<forall>k tok. (k, tok) \<in> set keywords_map \<longrightarrow> \<not> casing ''printx'' k"
    by (simp add: keywords_map_def sameLetter_def byte_def)
  from LookupIdent_casing [of "''Print''"] m c(1) have 1: "LookupIdent ''Print'' = PRINT" by blast
  from LookupIdent_casing [of "''PRINT''"] m c(2) have 2: "LookupIdent ''PRINT'' = PRINT" by blast
  from LookupIdent_casing [of "''print''"] m c(3) have 3: "LookupIdent ''print'' = PRINT" by blast
  from LookupIdent_casing [of "''printx''"] n have 4: "LookupIdent ''printx'' = IDENT" by blast
  show ?thesis using m c n 1 2 3 4 by blast
qed

text \<open>
  C6. The three golden outputs of \<^verbatim>\<open>FormatFileName\<close>: a base name padded to eight
  characters with a blank extension, a base name of more than eight characters cut to
  seven and marked with \<^verbatim>\<open>+\<close>, and a directory.
\<close>

theorem FormatFileName_golden:
  "FormatFileName ''basic'' False = ''basic   .       ''
   \<and> FormatFileName ''longername.basic'' False = ''longern+.bas    ''
   \<and> FormatFileName ''exactly8.bas'' True = ''exactly8.bas<dir>''"
  by code_simp

text \<open>
  C7. \<^verbatim>\<open>ReadByte\<close> is a function of the store: it returns at once. When the buffer
  holds no unconsumed byte it returns a space with the error "no data" and changes
  nothing; when it holds some, it returns the first of them with a nil error and the
  rest stay. The hypothesis holds in every reachable store (\<open>reachable_wf\<close>).
\<close>

theorem ReadByte_never_blocks:
  assumes "wfBuffer (h buff)"
  shows "(pending (h buff) = [] \<longrightarrow>
            ReadByte h buff = Inr ((CHR '' '', Some ''no data''), h))
       \<and> (\<forall>x xs. pending (h buff) = x # xs \<longrightarrow>
            (\<exists>h1. ReadByte h buff = Inr ((x, None), h1) \<and> pending (h1 buff) = xs
               \<and> wfBuffer (h1 buff) \<and> (\<forall>r. r \<noteq> buff \<longrightarrow> h1 r = h r)))"
proof (cases "inp (h buff) \<noteq> None \<and> ind (h buff) < length (the (inp (h buff)))")
  case False
  then have d: "(case inp (h buff) of None \<Rightarrow> [] | Some bs \<Rightarrow> drop (ind (h buff)) bs) = []"
    by (auto split: option.splits)
  show ?thesis
  proof (cases "keycodes (h buff)")
    case None
    then show ?thesis using False d by (auto simp: ReadByte_def pending_def noData_def)
  next
    case (Some q)
    show ?thesis
    proof (cases q)
      case Nil
      then show ?thesis using False d Some by (auto simp: ReadByte_def pending_def noData_def)
    next
      case (Cons bs q1)
      then have ne: "bs \<noteq> []" using assms Some by (simp add: wfBuffer_def)
      then obtain y ys where bs: "bs = y # ys" by (cases bs) auto
      show ?thesis
        using False d Some Cons bs assms
        by (auto simp: ReadByte_def pending_def wfBuffer_def)
    qed
  qed
next
  case True
  then obtain bs where i: "inp (h buff) = Some bs" and l: "ind (h buff) < length bs"
    by auto
  have dr: "drop (ind (h buff)) bs = bs ! ind (h buff) # drop (Suc (ind (h buff))) bs"
    using l by (simp add: Cons_nth_drop_Suc)
  show ?thesis
    using i l dr assms
    by (auto simp: ReadByte_def pending_def wfBuffer_def Let_def)
qed

theorem ReadByte_never_blocks_witness:
  "wfBuffer (((\<lambda>_. zeroKeyBuffer)(kbuff := zeroKeyBuffer\<lparr>keycodes := Some [''ab'']\<rparr>)) kbuff)
   \<and> pending (((\<lambda>_. zeroKeyBuffer)(kbuff := zeroKeyBuffer\<lparr>keycodes := Some [''ab'']\<rparr>)) kbuff)
       = ''ab''
   \<and> (\<exists>h1. ReadByte ((\<lambda>_. zeroKeyBuffer)(kbuff := zeroKeyBuffer\<lparr>keycodes := Some [''ab'']\<rparr>))
             kbuff = Inr ((CHR ''a'', None), h1)
         \<and> pending (h1 kbuff) = ''b'')
   \<and> wfBuffer ((\<lambda>_. zeroKeyBuffer) kbuff)
   \<and> pending ((\<lambda>_. zeroKeyBuffer) kbuff) = []
   \<and> ReadByte (\<lambda>_. zeroKeyBuffer) kbuff
       = Inr ((CHR '' '', Some ''no data''), \<lambda>_. zeroKeyBuffer)"
proof -
  let ?h = "(\<lambda>_. zeroKeyBuffer)(kbuff := zeroKeyBuffer\<lparr>keycodes := Some [''ab'']\<rparr>)"
  let ?z = "\<lambda>_::nat. zeroKeyBuffer"
  have w: "wfBuffer (?h kbuff)" by (simp add: wfBuffer_def)
  have p: "pending (?h kbuff) = CHR ''a'' # ''b''"
    by (simp add: pending_def zeroKeyBuffer_def)
  have wz: "wfBuffer (?z kbuff)" by (simp add: wfBuffer_def zeroKeyBuffer_def)
  have pz: "pending (?z kbuff) = []" by (simp add: pending_def zeroKeyBuffer_def)
  from ReadByte_never_blocks [of ?h kbuff] w p
  have a: "\<exists>h1. ReadByte ?h kbuff = Inr ((CHR ''a'', None), h1) \<and> pending (h1 kbuff) = ''b''"
    by blast
  from ReadByte_never_blocks [of ?z kbuff] wz pz
  have b: "ReadByte ?z kbuff = Inr ((CHR '' '', Some ''no data''), ?z)" by blast
  show ?thesis using w p wz pz a b by simp
qed

text \<open>
  C8. \<^verbatim>\<open>SaveKeyStroke\<close> translates the keystroke and then does one of three things.
  An empty translation is dropped: the call returns and the break flag is as it was.
  When the channel has room, the call returns with the translation enqueued, and the
  flag is set iff it was set or the translation contains the byte 3; once set by such a
  keystroke, \<^verbatim>\<open>BreakSeen\<close> is true after any further calls, on any buffer and whether
  they all return or not, that do not clear the flag of this buffer, and false once
  \<^verbatim>\<open>ClearBreak\<close> is called; a translation without the byte 3 leaves the flag as it
  was. When the channel is full, nothing is enqueued: the send waits for a receiver and
  the call does not return. The hypothesis rules out the nil dereference of
  \<^verbatim>\<open>checkForSpecialKeys\<close>; it holds for the buffer \<^verbatim>\<open>kbuff\<close> that
  \<^verbatim>\<open>GetKeyBuffer\<close> returns.
\<close>

theorem SaveKeyStroke_sets_break:
  assumes "buff = kbuff \<or> KeySettings (h buff) = None \<or> KeySettings (h kbuff) \<noteq> None"
  shows "\<exists>key1. translated h buff key = Inr key1
     \<and> (if key1 = [] then
           SaveKeyStroke h buff key = Inr (makeChan h buff)
           \<and> BreakSeen (makeChan h buff) buff = BreakSeen h buff
         else if room (h buff) then
           (\<exists>h1. SaveKeyStroke h buff key = Inr h1
              \<and> queued (h1 buff) = queued (h buff) @ [key1]
              \<and> BreakSeen h1 buff = (BreakSeen h buff \<or> CHR 0x03 \<in> set key1)
              \<and> (CHR 0x03 \<in> set key1 \<longrightarrow>
                    (\<forall>cs. Clear buff \<notin> set cs \<longrightarrow> BreakSeen (runUntil h1 cs) buff)
                    \<and> \<not> BreakSeen (ClearBreak h1 buff) buff))
         else SaveKeyStroke h buff key = Inl SendBlocks)"
proof -
  obtain key1 where k: "translated h buff key = Inr key1"
    using translated_returns [OF assms] by blast
  note s = SaveKeyStroke_cases [OF k]
  define h1 where "h1 = checkForCtrlC
    ((makeChan h buff)(buff := (makeChan h buff buff)\<lparr>keycodes := Some (queued (h buff) @ [key1])\<rparr>))
    buff key1"
  have b: "sig_break (h1 buff) = (sig_break (h buff) \<or> CHR 0x03 \<in> set key1)"
    by (simp add: h1_def checkForCtrlC_break makeChan_fields)
  have q: "queued (h1 buff) = queued (h buff) @ [key1]"
    by (simp add: h1_def queued_def checkForCtrlC_fields)
  have p: "CHR 0x03 \<in> set key1 \<longrightarrow>
      (\<forall>cs. Clear buff \<notin> set cs \<longrightarrow> BreakSeen (runUntil h1 cs) buff)"
    using runUntil_break [of buff _ h1] b by (simp add: BreakSeen_def)
  have c: "\<not> BreakSeen (ClearBreak h1 buff) buff" by (simp add: BreakSeen_def ClearBreak_def)
  have e: "BreakSeen (makeChan h buff) buff = BreakSeen h buff"
    by (simp add: BreakSeen_def makeChan_fields)
  have b': "BreakSeen h1 buff = (BreakSeen h buff \<or> CHR 0x03 \<in> set key1)"
    using b by (simp add: BreakSeen_def)
  have r: "key1 \<noteq> [] \<Longrightarrow> room (h buff) \<Longrightarrow>
      \<exists>h1. SaveKeyStroke h buff key = Inr h1
        \<and> queued (h1 buff) = queued (h buff) @ [key1]
        \<and> BreakSeen h1 buff = (BreakSeen h buff \<or> CHR 0x03 \<in> set key1)
        \<and> (CHR 0x03 \<in> set key1 \<longrightarrow>
              (\<forall>cs. Clear buff \<notin> set cs \<longrightarrow> BreakSeen (runUntil h1 cs) buff)
              \<and> \<not> BreakSeen (ClearBreak h1 buff) buff)"
  proof -
    assume "key1 \<noteq> []" and "room (h buff)"
    then have "SaveKeyStroke h buff key = Inr h1" using s by (simp add: h1_def)
    then show ?thesis using q b' p c by (intro exI [of _ h1]) simp
  qed
  have n: "key1 = [] \<Longrightarrow> SaveKeyStroke h buff key = Inr (makeChan h buff)"
    using s by simp
  have f: "key1 \<noteq> [] \<Longrightarrow> \<not> room (h buff) \<Longrightarrow> SaveKeyStroke h buff key = Inl SendBlocks"
    using s by simp
  show ?thesis
    apply (rule exI [of _ key1])
    apply (rule conjI [OF k])
    apply (cases "key1 = []")
     apply (simp only: if_True n e simp_thms)
    apply (cases "room (h buff)")
     apply (simp only: if_True if_False r simp_thms)
    apply (simp only: if_False f simp_thms)
    done
qed

theorem SaveKeyStroke_sets_break_witness:
  "(\<exists>h1. SaveKeyStroke (\<lambda>_. zeroKeyBuffer) kbuff [CHR ''a'', CHR 0x03] = Inr h1
       \<and> queued (h1 kbuff) = [[CHR ''a'', CHR 0x03]]
       \<and> BreakSeen h1 kbuff
       \<and> BreakSeen (runUntil h1 [Read kbuff, Seen kbuff, Save kbuff ''b'']) kbuff
       \<and> \<not> BreakSeen (ClearBreak h1 kbuff) kbuff)
   \<and> \<not> room (((\<lambda>_. zeroKeyBuffer)
          (kbuff := zeroKeyBuffer\<lparr>keycodes := Some (replicate 20 ''x'')\<rparr>)) kbuff)
   \<and> SaveKeyStroke ((\<lambda>_. zeroKeyBuffer)
          (kbuff := zeroKeyBuffer\<lparr>keycodes := Some (replicate 20 ''x'')\<rparr>)) kbuff [CHR 0x03]
       = Inl SendBlocks"
proof -
  let ?z = "\<lambda>_::nat. zeroKeyBuffer"
  let ?f = "?z(kbuff := zeroKeyBuffer\<lparr>keycodes := Some (replicate 20 ''x'')\<rparr>)"
  let ?key = "[CHR ''a'', CHR 0x03]"
  have a: "kbuff = kbuff \<or> KeySettings (h kbuff) = None \<or> KeySettings (h kbuff) \<noteq> None" for h
    by simp
  have t: "translated ?z kbuff ?key = Inr ?key" "translated ?f kbuff [CHR 0x03] = Inr [CHR 0x03]"
    by (simp_all add: translated_def)
  have rz: "room (?z kbuff)" by (simp add: room_def zeroKeyBuffer_def)
  have rf: "\<not> room (?f kbuff)" by (simp add: room_def capacity_def)
  have qz: "queued (?z kbuff) = []" by (simp add: queued_def zeroKeyBuffer_def)
  have bz: "\<not> BreakSeen ?z kbuff" by (simp add: BreakSeen_def zeroKeyBuffer_def)
  have n: "Clear kbuff \<notin> set [Read kbuff, Seen kbuff, Save kbuff ''b'']" by simp
  from SaveKeyStroke_sets_break [of kbuff ?z ?key] a [of ?z] t(1) rz
  obtain h1 where h1: "SaveKeyStroke ?z kbuff ?key = Inr h1"
    "queued (h1 kbuff) = queued (?z kbuff) @ [?key]"
    "BreakSeen h1 kbuff = (BreakSeen ?z kbuff \<or> CHR 0x03 \<in> set ?key)"
    "CHR 0x03 \<in> set ?key \<longrightarrow>
       (\<forall>cs. Clear kbuff \<notin> set cs \<longrightarrow> BreakSeen (runUntil h1 cs) kbuff)
       \<and> \<not> BreakSeen (ClearBreak h1 kbuff) kbuff"
    by auto
  have 1: "\<exists>h1. SaveKeyStroke ?z kbuff ?key = Inr h1
       \<and> queued (h1 kbuff) = [?key]
       \<and> BreakSeen h1 kbuff
       \<and> BreakSeen (runUntil h1 [Read kbuff, Seen kbuff, Save kbuff ''b'']) kbuff
       \<and> \<not> BreakSeen (ClearBreak h1 kbuff) kbuff"
  proof -
    have m: "CHR 0x03 \<in> set ?key" by simp
    from h1(4) m have all: "\<forall>cs. Clear kbuff \<notin> set cs \<longrightarrow> BreakSeen (runUntil h1 cs) kbuff"
      and clr: "\<not> BreakSeen (ClearBreak h1 kbuff) kbuff" by blast+
    from all n have "BreakSeen (runUntil h1 [Read kbuff, Seen kbuff, Save kbuff ''b'']) kbuff"
      by blast
    moreover have "queued (h1 kbuff) = [?key]" using h1(2) qz by simp
    moreover have "BreakSeen h1 kbuff" using h1(3) by simp
    moreover note clr
    ultimately show ?thesis using h1(1) by blast
  qed
  from SaveKeyStroke_sets_break [of kbuff ?f "[CHR 0x03]"] a [of ?f] t(2) rf
  have 2: "SaveKeyStroke ?f kbuff [CHR 0x03] = Inl SendBlocks" by auto
  show ?thesis using 1 rf 2 by blast
qed

text \<open>
  C9. An escape sequence with no macro text configured, the case of no key settings at
  all included, queues nothing: \<^verbatim>\<open>SaveKeyStroke\<close> returns having at most created the
  channel, the unconsumed bytes and the break flag of every buffer are as before, and
  \<^verbatim>\<open>ReadByte\<close> returns what it would have returned before.
\<close>

theorem SaveKeyStroke_drops_unmapped:
  assumes "length key > 1" and "key ! 0 = CHR 0x1B"
    and "KeySettings (h buff) = None \<or> (KeySettings (h kbuff) \<noteq> None \<and> macroText h key = [])"
  shows "SaveKeyStroke h buff key = Inr (makeChan h buff)
       \<and> (\<forall>r. pending (makeChan h buff r) = pending (h r)
              \<and> BreakSeen (makeChan h buff) r = BreakSeen h r)
       \<and> map_sum id fst (ReadByte (makeChan h buff) buff) = map_sum id fst (ReadByte h buff)"
proof -
  have "checkForSpecialKeys h buff key = Inr []"
    using assms(3) by (auto simp: checkForSpecialKeys_def macroText_def Let_def split: option.splits)
  then have s: "SaveKeyStroke h buff key = Inr (makeChan h buff)"
    using assms(1,2) by (simp add: SaveKeyStroke_def Let_def checkForSpecialKeys_makeChan)
  have p: "\<forall>r. pending (makeChan h buff r) = pending (h r)
      \<and> BreakSeen (makeChan h buff) r = BreakSeen h r"
    by (simp add: makeChan_pending BreakSeen_def makeChan_fields)
  have r: "map_sum id fst (ReadByte (makeChan h buff) buff) = map_sum id fst (ReadByte h buff)"
    by (auto simp: ReadByte_def makeChan_def Let_def split: option.splits list.splits)
  show ?thesis using s p r by blast
qed

theorem SaveKeyStroke_drops_unmapped_witness:
  "length [CHR 0x1B, CHR 0x4F, CHR 0x50] > 1
   \<and> [CHR 0x1B, CHR 0x4F, CHR 0x50] ! 0 = CHR 0x1B
   \<and> KeySettings ((\<lambda>_. zeroKeyBuffer) kbuff) = None
   \<and> SaveKeyStroke (\<lambda>_. zeroKeyBuffer) kbuff [CHR 0x1B, CHR 0x4F, CHR 0x50]
       = Inr (makeChan (\<lambda>_. zeroKeyBuffer) kbuff)
   \<and> pending (makeChan (\<lambda>_. zeroKeyBuffer) kbuff kbuff) = []
   \<and> map_sum id fst (ReadByte (makeChan (\<lambda>_. zeroKeyBuffer) kbuff) kbuff) = Inr noData"
proof -
  let ?z = "\<lambda>_::nat. zeroKeyBuffer"
  let ?key = "[CHR 0x1B, CHR 0x4F, CHR 0x50]"
  have a: "length ?key > 1" "?key ! 0 = CHR 0x1B" by simp_all
  have b: "KeySettings (?z kbuff) = None" by (simp add: zeroKeyBuffer_def)
  have c: "KeySettings (?z kbuff) = None
      \<or> (KeySettings (?z kbuff) \<noteq> None \<and> macroText ?z ?key = [])"
    using b by simp
  have p: "pending (?z kbuff) = []" by (simp add: pending_def zeroKeyBuffer_def)
  have r: "map_sum id fst (ReadByte ?z kbuff) = Inr noData"
    by (simp add: ReadByte_def zeroKeyBuffer_def)
  from SaveKeyStroke_drops_unmapped [OF a c] p r
  show ?thesis using a b by simp
qed

text \<open>
  C10. For a name with more than one period, \<^verbatim>\<open>FormatFileName\<close> takes the segment
  between the first and the second period as the extension, cut to three bytes, then
  cut and padded to three characters by the verb; what follows the second period has no
  effect on the result, which is that of the name cut before its second period. For a
  name of ASCII bytes the result is written out: the base name padded with spaces to
  eight characters, the period, the first three characters of that segment padded with
  spaces to three, and the tag.
\<close>

theorem FormatFileName_extension:
  assumes "1 < count_list name (CHR ''.'')"
  shows "FormatFileName name isDir =
           Sprintf_8_3 (formatBaseName (upToPeriod name))
             (formatExtension (upToPeriod (afterPeriod name))) (setDirTag isDir)
         \<and> FormatFileName name isDir =
           FormatFileName (upToPeriod name @ ''.'' @ upToPeriod (afterPeriod name)) isDir
         \<and> (isASCII name \<longrightarrow>
             FormatFileName name isDir =
               formatBaseName (upToPeriod name)
               @ replicate (8 - length (formatBaseName (upToPeriod name))) (CHR '' '')
               @ ''.'' @ take 3 (upToPeriod (afterPeriod name))
               @ replicate (3 - length (upToPeriod (afterPeriod name))) (CHR '' '')
               @ setDirTag isDir)"
proof -
  let ?b = "upToPeriod name" and ?e = "upToPeriod (afterPeriod name)"
  have a: "FormatFileName name isDir =
      Sprintf_8_3 (formatBaseName ?b) (formatExtension ?e) (setDirTag isDir)"
    by (simp add: FormatFileName_def Split_two_periods [OF assms])
  have b: "FormatFileName (?b @ ''.'' @ ?e) isDir =
      Sprintf_8_3 (formatBaseName ?b) (formatExtension ?e) (setDirTag isDir)"
    using Split_one_period [of ?b ?e]
      upToPeriod_no_period [of name] upToPeriod_no_period [of "afterPeriod name"]
    by (simp add: FormatFileName_def)
  have c: "Sprintf_8_3 (formatBaseName ?b) (formatExtension ?e) (setDirTag isDir) =
      formatBaseName ?b @ replicate (8 - length (formatBaseName ?b)) (CHR '' '')
      @ ''.'' @ take 3 ?e @ replicate (3 - length ?e) (CHR '' '') @ setDirTag isDir"
    if asc: "isASCII name"
  proof -
    have ab: "isASCII (formatBaseName ?b)"
      using asc by (simp add: formatBaseName_ascii upToPeriod_ascii)
    have ae: "isASCII (formatExtension ?e)"
      using asc by (simp add: formatExtension_ascii upToPeriod_ascii afterPeriod_ascii)
    have lb: "length (formatBaseName ?b) \<le> 8" by (simp add: formatBaseName_def)
    have fe: "take 3 (formatExtension ?e) = take 3 ?e"
      "3 - length (formatExtension ?e) = 3 - length ?e"
      by (auto simp: formatExtension_def)
    show ?thesis
      using lb fe by (simp add: Sprintf_8_3_def fmtS_ascii [OF ab] fmtS_ascii [OF ae])
  qed
  show ?thesis using a b c by simp
qed

theorem FormatFileName_extension_witness:
  "1 < count_list ''prog.bas.tmp'' (CHR ''.'')
   \<and> isASCII ''prog.bas.tmp''
   \<and> upToPeriod ''prog.bas.tmp'' = ''prog''
   \<and> upToPeriod (afterPeriod ''prog.bas.tmp'') = ''bas''
   \<and> FormatFileName ''prog.bas.tmp'' False = FormatFileName ''prog.bas'' False
   \<and> FormatFileName ''prog.bas.tmp'' False = ''prog    .bas    ''"
proof -
  have c: "1 < count_list ''prog.bas.tmp'' (CHR ''.'')" by simp
  have a: "isASCII ''prog.bas.tmp''" by (simp add: isASCII_def byte_def)
  have u: "upToPeriod ''prog.bas.tmp'' = ''prog''"
    "upToPeriod (afterPeriod ''prog.bas.tmp'') = ''bas''"
    by (simp_all add: upToPeriod_def afterPeriod_def)
  note t = FormatFileName_extension [OF c, of False]
  have "FormatFileName ''prog.bas.tmp'' False =
      FormatFileName (upToPeriod ''prog.bas.tmp'' @ ''.'' @
        upToPeriod (afterPeriod ''prog.bas.tmp'')) False"
    using t by blast
  then have w: "FormatFileName ''prog.bas.tmp'' False = FormatFileName ''prog.bas'' False"
    by (simp only: u append.simps)
  have "FormatFileName ''prog.bas.tmp'' False =
      formatBaseName (upToPeriod ''prog.bas.tmp'')
      @ replicate (8 - length (formatBaseName (upToPeriod ''prog.bas.tmp''))) (CHR '' '')
      @ ''.'' @ take 3 (upToPeriod (afterPeriod ''prog.bas.tmp''))
      @ replicate (3 - length (upToPeriod (afterPeriod ''prog.bas.tmp''))) (CHR '' '')
      @ setDirTag False"
    using t a by blast
  then have v: "FormatFileName ''prog.bas.tmp'' False = ''prog    .bas    ''"
    by (simp add: u formatBaseName_def setDirTag_def numeral_eq_Suc)
  show ?thesis using c a u v w by simp
qed

end
